theory Spec2Isabelle
  imports Complex_Main "HOL-Library.Word"
begin

unbundle bit_operations_syntax

section \<open>Data model\<close>

text \<open>
  Unsigned 64-bit fields (\<^verbatim>\<open>uint64_t\<close>, \<^verbatim>\<open>OrderId\<close>, \<^verbatim>\<open>size_t\<close> on an LP64 target) are
  \<open>64 word\<close>: addition and subtraction wrap around as in C++.
  \<^verbatim>\<open>Price\<close> is a struct with the single field \<^verbatim>\<open>int64_t ticks\<close>; the book only ever
  compares prices and never computes with them, so a price is the integer value of its
  tick count.
\<close>

type_synonym u64 = "64 word"
type_synonym OrderId = u64
type_synonym Price = int

definition INVALID_PRICE :: Price where
  "INVALID_PRICE = - 1"

datatype Side = Buy | Sell

fun opposite :: "Side \<Rightarrow> Side" where
  "opposite Buy = Sell"
| "opposite Sell = Buy"

datatype OrderType = Limit | Market | IOC | FOK

record Order =
  o_id :: OrderId
  o_side :: Side
  o_price :: Price
  o_qty :: u64
  o_ts :: u64
  o_type :: OrderType

definition is_market :: "Order \<Rightarrow> bool" where
  "is_market ord = (o_type ord = Market)"

definition is_limit :: "Order \<Rightarrow> bool" where
  "is_limit ord = (o_type ord = Limit)"

definition is_ioc :: "Order \<Rightarrow> bool" where
  "is_ioc ord = (o_type ord = IOC)"

definition is_fok :: "Order \<Rightarrow> bool" where
  "is_fok ord = (o_type ord = FOK)"

record TradeEvent =
  taker_id :: OrderId
  maker_id :: OrderId
  t_price :: Price
  t_qty :: u64
  t_ts :: u64

record CancelEvent =
  c_id :: OrderId
  c_remaining :: u64
  c_ts :: u64

record ReplaceEvent =
  r_id :: OrderId
  r_new_price :: Price
  r_new_qty :: u64
  r_ts :: u64

record BookTop =
  best_bid :: Price
  bid_qty :: u64
  best_ask :: Price
  ask_qty :: u64
  top_ts :: u64

section \<open>Price level (BookLevel.h)\<close>

record BookOrder =
  order :: Order
  remaining_qty :: u64

definition mk_BookOrder :: "Order \<Rightarrow> BookOrder" where
  "mk_BookOrder ord = \<lparr>order = ord, remaining_qty = o_qty ord\<rparr>"

record BookLevel =
  orders :: "BookOrder list"
  total_qty :: u64

definition new_level :: BookLevel where
  "new_level = \<lparr>orders = [], total_qty = 0\<rparr>"

definition add_order :: "BookLevel \<Rightarrow> BookOrder \<Rightarrow> BookLevel" where
  "add_order l bo =
     l\<lparr>orders := orders l @ [bo], total_qty := total_qty l + remaining_qty bo\<rparr>"

definition front :: "BookLevel \<Rightarrow> BookOrder option" where
  "front l = (case orders l of [] \<Rightarrow> None | x # xs \<Rightarrow> Some x)"

definition pop_front :: "BookLevel \<Rightarrow> BookLevel" where
  "pop_front l =
     (case orders l of
        [] \<Rightarrow> l
      | x # xs \<Rightarrow> l\<lparr>orders := xs, total_qty := total_qty l - remaining_qty x\<rparr>)"

text \<open>
  \<^verbatim>\<open>remove_order\<close> erases the first slot with the given id. The out-parameter
  \<^verbatim>\<open>removed_qty\<close> is threaded through: it keeps the caller's value when no slot matches.
\<close>

fun remove_first :: "OrderId \<Rightarrow> BookOrder list \<Rightarrow> BookOrder list" where
  "remove_first i [] = []"
| "remove_first i (x # xs) = (if o_id (order x) = i then xs else x # remove_first i xs)"

definition find_order :: "BookLevel \<Rightarrow> OrderId \<Rightarrow> BookOrder option" where
  "find_order l i = find (\<lambda>bo. o_id (order bo) = i) (orders l)"

definition remove_order :: "BookLevel \<Rightarrow> OrderId \<Rightarrow> u64 \<Rightarrow> bool \<times> u64 \<times> BookLevel" where
  "remove_order l i removed_qty =
     (case find_order l i of
        None \<Rightarrow> (False, removed_qty, l)
      | Some bo \<Rightarrow>
          (True, remaining_qty bo,
           l\<lparr>orders := remove_first i (orders l),
             total_qty := total_qty l - remaining_qty bo\<rparr>))"

definition update_front_qty :: "BookLevel \<Rightarrow> u64 \<Rightarrow> BookLevel" where
  "update_front_qty l new_qty =
     (case orders l of
        [] \<Rightarrow> l
      | x # xs \<Rightarrow>
          l\<lparr>orders := x\<lparr>remaining_qty := new_qty\<rparr> # xs,
            total_qty := total_qty l - remaining_qty x + new_qty\<rparr>)"

definition empty_level :: "BookLevel \<Rightarrow> bool" where
  "empty_level l = (orders l = [])"

text \<open>
  In \<^verbatim>\<open>match_order\<close> the pointer \<^verbatim>\<open>maker_order\<close> returned by \<^verbatim>\<open>level.front()\<close> aliases
  the first slot of the queue, so \<^verbatim>\<open>maker_order->remaining_qty -= fill_qty\<close> writes into
  the level itself, before \<^verbatim>\<open>pop_front\<close> or \<^verbatim>\<open>update_front_qty\<close> read that slot again.
  The write through the pointer is this function; it leaves \<^verbatim>\<open>total_qty_\<close> alone.
\<close>

definition write_front_remaining :: "BookLevel \<Rightarrow> u64 \<Rightarrow> BookLevel" where
  "write_front_remaining l v =
     (case orders l of
        [] \<Rightarrow> l
      | x # xs \<Rightarrow> l\<lparr>orders := x\<lparr>remaining_qty := v\<rparr> # xs\<rparr>)"

section \<open>Ordered price maps\<close>

text \<open>
  \<^verbatim>\<open>std::map<Price, BookLevel, Cmp>\<close> is a list of (price, level) pairs kept in the order of
  the comparator: \<^verbatim>\<open>begin()\<close> is the head, \<^verbatim>\<open>find\<close> is a lookup, \<^verbatim>\<open>erase\<close> drops the key,
  and \<^verbatim>\<open>operator[]\<close> followed by a write is \<open>map_put\<close>, which inserts a missing key at its
  place in the order. \<open>map_set\<close> is a write through an iterator or reference to a level
  that is already in the map.
\<close>

type_synonym PriceMap = "(Price \<times> BookLevel) list"

definition cmp_bids :: "Price \<Rightarrow> Price \<Rightarrow> bool" where
  "cmp_bids a b = (a > b)"

definition cmp_asks :: "Price \<Rightarrow> Price \<Rightarrow> bool" where
  "cmp_asks a b = (a < b)"

definition map_find :: "Price \<Rightarrow> PriceMap \<Rightarrow> BookLevel option" where
  "map_find p m = map_of m p"

definition map_erase :: "Price \<Rightarrow> PriceMap \<Rightarrow> PriceMap" where
  "map_erase p m = filter (\<lambda>kv. fst kv \<noteq> p) m"

definition map_set :: "Price \<Rightarrow> BookLevel \<Rightarrow> PriceMap \<Rightarrow> PriceMap" where
  "map_set p l m = map (\<lambda>kv. if fst kv = p then (p, l) else kv) m"

fun map_put :: "(Price \<Rightarrow> Price \<Rightarrow> bool) \<Rightarrow> Price \<Rightarrow> BookLevel \<Rightarrow> PriceMap \<Rightarrow> PriceMap" where
  "map_put cmp p l [] = [(p, l)]"
| "map_put cmp p l ((k, v) # m) =
     (if p = k then (p, l) # m
      else if cmp p k then (p, l) # (k, v) # m
      else (k, v) # map_put cmp p l m)"

definition map_get_or_new :: "Price \<Rightarrow> PriceMap \<Rightarrow> BookLevel" where
  "map_get_or_new p m = (case map_find p m of None \<Rightarrow> new_level | Some l \<Rightarrow> l)"

section \<open>Limit book (LimitBook.cpp)\<close>

text \<open>
  The book holds the two sides, the id index and the reading of the injected time source.
  A \<^verbatim>\<open>SimulatedTimeSource\<close> returns the same \<^verbatim>\<open>now_ns()\<close> until it is advanced from
  outside, so the reading is a field that the operations read and never write.
\<close>

record LimitBook =
  bids :: PriceMap
  asks :: PriceMap
  order_index :: "OrderId \<rightharpoonup> (Side \<times> Price)"
  clock :: u64

definition empty_book :: "u64 \<Rightarrow> LimitBook" where
  "empty_book t = \<lparr>bids = [], asks = [], order_index = Map.empty, clock = t\<rparr>"

text \<open>
  The two loops of \<^verbatim>\<open>match_order\<close> are the same text, over \<^verbatim>\<open>asks_\<close> with \<^verbatim>\<open>>\<close>
  for a buy and over \<^verbatim>\<open>bids_\<close> with \<^verbatim>\<open><\<close> for a sell. \<open>price_stops\<close> is that
  comparison and \<open>match_loop\<close> is the loop, run on the opposite side's map.
\<close>

definition price_stops :: "Order \<Rightarrow> Price \<Rightarrow> bool" where
  "price_stops ord best_price =
     (if o_side ord = Buy then best_price > o_price ord else best_price < o_price ord)"

definition slot_count :: "PriceMap \<Rightarrow> nat" where
  "slot_count m = sum_list (map (\<lambda>kv. length (orders (snd kv))) m)"

function match_loop ::
  "Order \<Rightarrow> PriceMap \<Rightarrow> (OrderId \<rightharpoonup> (Side \<times> Price)) \<Rightarrow> u64 \<Rightarrow> TradeEvent list
     \<Rightarrow> Order \<times> PriceMap \<times> (OrderId \<rightharpoonup> (Side \<times> Price)) \<times> TradeEvent list" where
  "match_loop ord m idx now out =
     (case m of
        [] \<Rightarrow> (ord, m, idx, out)
      | (best_price, level) # rest \<Rightarrow>
          if \<not> (o_qty ord > 0) then (ord, m, idx, out)
          else if \<not> is_market ord \<and> price_stops ord best_price then (ord, m, idx, out)
          else
            (case front level of
               None \<Rightarrow> (ord, m, idx, out)
             | Some maker \<Rightarrow>
                 let fill_qty = min (o_qty ord) (remaining_qty maker);
                     trade = \<lparr>taker_id = o_id ord, maker_id = o_id (order maker),
                              t_price = best_price, t_qty = fill_qty, t_ts = now\<rparr>;
                     out1 = out @ [trade];
                     ord1 = ord\<lparr>o_qty := o_qty ord - fill_qty\<rparr>;
                     level1 = write_front_remaining level (remaining_qty maker - fill_qty)
                 in
                   if remaining_qty maker - fill_qty = 0 then
                     let level2 = pop_front level1;
                         idx1 = idx(o_id (order maker) := None)
                     in
                       if empty_level level2 then match_loop ord1 rest idx1 now out1
                       else match_loop ord1 ((best_price, level2) # rest) idx1 now out1
                   else
                     match_loop ord1
                       ((best_price,
                         update_front_qty level1 (remaining_qty maker - fill_qty)) # rest)
                       idx now out1))"
  by pat_completeness auto

termination match_loop
  apply (relation "measure (\<lambda>(ord, m, idx, now, out).
           2 * slot_count m + (if o_qty ord > 0 then 1 else 0))")
     apply simp
    apply (auto simp: slot_count_def pop_front_def write_front_remaining_def
      update_front_qty_def front_def empty_level_def min_def split: list.splits if_splits)
  done

definition match_order ::
  "Order \<Rightarrow> TradeEvent list \<Rightarrow> LimitBook \<Rightarrow> Order \<times> LimitBook \<times> TradeEvent list" where
  "match_order ord out b =
     (if o_side ord = Buy then
        (case match_loop ord (asks b) (order_index b) (clock b) out of
           (ord1, m1, idx1, out1) \<Rightarrow> (ord1, b\<lparr>asks := m1, order_index := idx1\<rparr>, out1))
      else
        (case match_loop ord (bids b) (order_index b) (clock b) out of
           (ord1, m1, idx1, out1) \<Rightarrow> (ord1, b\<lparr>bids := m1, order_index := idx1\<rparr>, out1)))"

definition add_resting_order :: "Order \<Rightarrow> LimitBook \<Rightarrow> LimitBook" where
  "add_resting_order ord b =
     (let book_order = mk_BookOrder ord;
          b1 = (if o_side ord = Buy
                then b\<lparr>bids := map_put cmp_bids (o_price ord)
                        (add_order (map_get_or_new (o_price ord) (bids b)) book_order) (bids b)\<rparr>
                else b\<lparr>asks := map_put cmp_asks (o_price ord)
                        (add_order (map_get_or_new (o_price ord) (asks b)) book_order) (asks b)\<rparr>)
      in b1\<lparr>order_index := (order_index b1)(o_id ord \<mapsto> (o_side ord, o_price ord))\<rparr>)"

definition best_price :: "LimitBook \<Rightarrow> Side \<Rightarrow> Price" where
  "best_price b sd =
     (if sd = Buy then (case bids b of [] \<Rightarrow> INVALID_PRICE | (p, l) # rest \<Rightarrow> p)
      else (case asks b of [] \<Rightarrow> INVALID_PRICE | (p, l) # rest \<Rightarrow> p))"

definition would_cross :: "LimitBook \<Rightarrow> Order \<Rightarrow> bool" where
  "would_cross b ord =
     (if is_market ord then True
      else
        let best_opposite = best_price b (opposite (o_side ord)) in
          if best_opposite = INVALID_PRICE then False
          else if o_side ord = Buy then o_price ord \<ge> best_opposite
          else o_price ord \<le> best_opposite)"

definition best_bid_ask :: "LimitBook \<Rightarrow> bool \<times> BookTop" where
  "best_bid_ask b =
     (let out0 = \<lparr>best_bid = INVALID_PRICE, bid_qty = 0, best_ask = INVALID_PRICE,
                  ask_qty = 0, top_ts = clock b\<rparr>;
          out1 = (case bids b of [] \<Rightarrow> out0
                  | (p, l) # rest \<Rightarrow> out0\<lparr>best_bid := p, bid_qty := total_qty l\<rparr>);
          out2 = (case asks b of [] \<Rightarrow> out1
                  | (p, l) # rest \<Rightarrow> out1\<lparr>best_ask := p, ask_qty := total_qty l\<rparr>)
      in (bids b \<noteq> [] \<or> asks b \<noteq> [], out2))"

text \<open>
  The pre-scan of a FOK order in \<^verbatim>\<open>add\<close>: the loop over the opposite side that adds up
  \<^verbatim>\<open>level.total_qty()\<close>. The sum is a \<^verbatim>\<open>uint64_t\<close> and wraps.
\<close>

fun fok_available :: "Order \<Rightarrow> PriceMap \<Rightarrow> u64 \<Rightarrow> u64" where
  "fok_available ord [] available_qty = available_qty"
| "fok_available ord ((p, level) # rest) available_qty =
     (if price_stops ord p \<and> \<not> is_market ord then available_qty
      else
        let available1 = available_qty + total_qty level in
          if available1 \<ge> o_qty ord then available1
          else fok_available ord rest available1)"

text \<open>
  \<open>add_limit_phase\<close> is the tail of \<^verbatim>\<open>add\<close> (from \<^verbatim>\<open>if (would_cross(working_order))\<close> to
  the end), reached by a limit order directly and by a market order with a residual.
  The snapshot written through \<^verbatim>\<open>out_top\<close> is \<open>best_bid_ask\<close> of the returned book.
\<close>

definition add_limit_phase ::
  "Order \<Rightarrow> TradeEvent list \<Rightarrow> LimitBook \<Rightarrow> bool \<times> LimitBook \<times> TradeEvent list" where
  "add_limit_phase working_order out b =
     (case (if would_cross b working_order then match_order working_order out b
            else (working_order, b, out)) of
        (w1, b1, out1) \<Rightarrow>
          (True,
           if o_qty w1 > 0 \<and> is_limit w1 then add_resting_order w1 b1 else b1,
           out1))"

definition add :: "Order \<Rightarrow> TradeEvent list \<Rightarrow> LimitBook \<Rightarrow> bool \<times> LimitBook \<times> TradeEvent list" where
  "add ord out b =
     (if order_index b (o_id ord) \<noteq> None then (False, b, out)
      else if is_market ord \<or> is_ioc ord \<or> is_fok ord then
        (if is_fok ord \<and>
            fok_available ord (if o_side ord = Buy then asks b else bids b) 0 < o_qty ord
         then (False, b, out)
         else
           (case match_order ord out b of
              (w1, b1, out1) \<Rightarrow>
                if o_qty w1 = 0 \<or> is_ioc w1 \<or> is_fok w1 then (True, b1, out1)
                else add_limit_phase w1 out1 b1))
      else add_limit_phase ord out b)"

definition cancel_side :: "OrderId \<Rightarrow> Price \<Rightarrow> PriceMap \<Rightarrow> u64 \<Rightarrow> PriceMap \<times> u64" where
  "cancel_side i p m removed_qty =
     (case map_find p m of
        None \<Rightarrow> (m, removed_qty)
      | Some level \<Rightarrow>
          (case remove_order level i removed_qty of
             (found, removed1, level1) \<Rightarrow>
               if empty_level level1 then (map_erase p m, removed1)
               else (map_set p level1 m, removed1)))"

definition cancel :: "OrderId \<Rightarrow> CancelEvent \<Rightarrow> LimitBook \<Rightarrow> bool \<times> LimitBook \<times> CancelEvent" where
  "cancel i out b =
     (case order_index b i of
        None \<Rightarrow> (False, b, out)
      | Some (sd, p) \<Rightarrow>
          let b1 = (if sd = Buy
                    then (case cancel_side i p (bids b) 0 of (m1, q) \<Rightarrow> (b\<lparr>bids := m1\<rparr>, q))
                    else (case cancel_side i p (asks b) 0 of (m1, q) \<Rightarrow> (b\<lparr>asks := m1\<rparr>, q)))
          in (True,
              (fst b1)\<lparr>order_index := (order_index b)(i := None)\<rparr>,
              \<lparr>c_id = i, c_remaining = snd b1, c_ts = clock b\<rparr>))"

definition replace ::
  "OrderId \<Rightarrow> Price \<Rightarrow> u64 \<Rightarrow> ReplaceEvent \<Rightarrow> TradeEvent list \<Rightarrow> LimitBook
     \<Rightarrow> bool \<times> LimitBook \<times> ReplaceEvent \<times> TradeEvent list" where
  "replace i new_price new_qty out out_trades b =
     (case order_index b i of
        None \<Rightarrow> (False, b, out, out_trades)
      | Some (sd, p) \<Rightarrow>
          (case (case map_find p (if sd = Buy then bids b else asks b) of
                   None \<Rightarrow> None
                 | Some level \<Rightarrow> find_order level i) of
             None \<Rightarrow> (False, b, out, out_trades)
           | Some book_order \<Rightarrow>
               let original_order = (order book_order)\<lparr>o_qty := remaining_qty book_order\<rparr> in
                 (case cancel i \<lparr>c_id = 0, c_remaining = 0, c_ts = 0\<rparr> b of
                    (cancelled, b1, cancel_event) \<Rightarrow>
                      if \<not> cancelled then (False, b1, out, out_trades)
                      else
                        let new_order = original_order
                              \<lparr>o_price := new_price, o_qty := new_qty, o_ts := clock b1\<rparr>
                        in
                          (case add new_order out_trades b1 of
                             (added, b2, trades2) \<Rightarrow>
                               if \<not> added then (False, b2, out, trades2)
                               else
                                 (True, b2,
                                  \<lparr>r_id = i, r_new_price = new_price, r_new_qty = new_qty,
                                   r_ts = o_ts new_order\<rparr>,
                                  trades2)))))"

section \<open>Tick price conversion (Price.h)\<close>

text \<open>
  \<^verbatim>\<open>Price::from_double\<close> computes \<^verbatim>\<open>static_cast<int64_t>(price / tick_size + 0.5)\<close>.
  A \<^verbatim>\<open>double\<close> is read as the real number it denotes, and the cast to an integer type
  truncates towards zero. On inputs where the quotient and the sum are themselves binary
  fractions with few digits (such as \<open>- 3 / 2\<close> and \<open>1\<close>), IEEE arithmetic is exact and the
  program computes exactly the value of this definition.
\<close>

definition trunc_toward_zero :: "real \<Rightarrow> int" where
  "trunc_toward_zero x = (if x \<ge> 0 then \<lfloor>x\<rfloor> else \<lceil>x\<rceil>)"

definition from_double :: "real \<Rightarrow> real \<Rightarrow> Price" where
  "from_double price tick_size = trunc_toward_zero (price / tick_size + 1 / 2)"

text \<open>
  The rounding the specification names: the nearest integer, a tie going away from zero.
\<close>

definition round_half_away :: "real \<Rightarrow> int" where
  "round_half_away x = (if x \<ge> 0 then \<lfloor>x + 1 / 2\<rfloor> else \<lceil>x - 1 / 2\<rceil>)"

section \<open>Event channel (RingBuffer.h)\<close>

text \<open>
  \<^verbatim>\<open>size_t\<close> is 64 bits wide (the last step of \<^verbatim>\<open>next_power_of_two\<close> shifts by 32).
  The vector \<^verbatim>\<open>buffer_\<close> is a list, filled with the default-constructed element \<open>d\<close>.
  The memory orders of the atomics do not change what one thread computes.
\<close>

record 'a RingBuffer =
  rb_capacity :: u64
  rb_mask :: u64
  rb_buffer :: "'a list"
  rb_head :: u64
  rb_tail :: u64

definition next_power_of_two :: "u64 \<Rightarrow> u64" where
  "next_power_of_two n =
     (if n = 0 then 1
      else
        let n0 = n - 1;
            n1 = n0 OR drop_bit 1 n0;
            n2 = n1 OR drop_bit 2 n1;
            n3 = n2 OR drop_bit 4 n2;
            n4 = n3 OR drop_bit 8 n3;
            n5 = n4 OR drop_bit 16 n4;
            n6 = n5 OR drop_bit 32 n5
        in n6 + 1)"

text \<open>
  The constructor builds the vector with \<^verbatim>\<open>buffer_(capacity_)\<close>, which throws
  (\<^verbatim>\<open>std::length_error\<close> above \<^verbatim>\<open>vector::max_size()\<close>, \<^verbatim>\<open>std::bad_alloc\<close> when memory runs
  out) instead of returning a ring. The largest number of cells the vector constructor
  builds depends on the element type and the platform and is not part of the source: it
  is the parameter \<open>max_cells\<close>. No implementation reports a \<^verbatim>\<open>max_size()\<close> of \<open>2 ^ 63\<close> or
  more.
\<close>

datatype ctor_error = AllocationFailed

definition mk_RingBuffer :: "nat \<Rightarrow> 'a \<Rightarrow> u64 \<Rightarrow> ctor_error + 'a RingBuffer" where
  "mk_RingBuffer max_cells d cap =
     (if unat (next_power_of_two cap) > max_cells then Inl AllocationFailed
      else
        Inr \<lparr>rb_capacity = next_power_of_two cap,
             rb_mask = next_power_of_two cap - 1,
             rb_buffer = replicate (unat (next_power_of_two cap)) d,
             rb_head = 0,
             rb_tail = 0\<rparr>)"

definition push :: "'a \<Rightarrow> 'a RingBuffer \<Rightarrow> bool \<times> 'a RingBuffer" where
  "push item rb =
     (let current_tail = rb_tail rb;
          next_tail = (current_tail + 1) AND rb_mask rb
      in
        if next_tail = rb_head rb then (False, rb)
        else
          (True,
           rb\<lparr>rb_buffer := (rb_buffer rb)[unat current_tail := item], rb_tail := next_tail\<rparr>))"

text \<open>\<^verbatim>\<open>pop\<close> returns \<open>None\<close> where the source returns false and leaves \<^verbatim>\<open>item\<close> alone.\<close>

definition pop :: "'a RingBuffer \<Rightarrow> 'a option \<times> 'a RingBuffer" where
  "pop rb =
     (let current_head = rb_head rb in
        if current_head = rb_tail rb then (None, rb)
        else
          (Some (rb_buffer rb ! unat current_head),
           rb\<lparr>rb_head := (current_head + 1) AND rb_mask rb\<rparr>))"


text \<open>
  The drain loop of \<^verbatim>\<open>poll_events\<close>: \<^verbatim>\<open>while (event_buffer_.pop(event)) out.push_back(event)\<close>.
  It ends when head meets tail, which a ring with an index outside the mask never does,
  so the loop is a partial function and \<open>None\<close> stands for not returning.
\<close>

partial_function (option) pop_all :: "'a RingBuffer \<Rightarrow> 'a list \<Rightarrow> ('a list \<times> 'a RingBuffer) option" where
  "pop_all rb out =
     (case pop rb of
        (None, rb1) \<Rightarrow> Some (out, rb1)
      | (Some ev, rb1) \<Rightarrow> pop_all rb1 (out @ [ev]))"

section \<open>Matching engine (MatchingEngine.cpp)\<close>

record AcceptEvent =
  a_id :: OrderId
  a_ts :: u64

record RejectEvent =
  j_id :: OrderId
  j_ts :: u64
  j_reason_code :: "32 word"

datatype EngineEvent =
    Trade TradeEvent
  | Accepted AcceptEvent
  | Rejected RejectEvent
  | Cancelled CancelEvent
  | Replaced ReplaceEvent
  | Top BookTop

record MatchingEngine =
  book :: LimitBook
  event_buffer :: "EngineEvent RingBuffer"

definition default_event :: EngineEvent where
  "default_event = Trade \<lparr>taker_id = 0, maker_id = 0, t_price = 0, t_qty = 0, t_ts = 0\<rparr>"

text \<open>
  The engine's constructor builds the book and then the ring of \<^verbatim>\<open>config.ring_size\<close>; when
  the ring's constructor throws, no engine exists.
\<close>

definition mk_MatchingEngine :: "nat \<Rightarrow> u64 \<Rightarrow> u64 \<Rightarrow> ctor_error + MatchingEngine" where
  "mk_MatchingEngine max_cells ring_size t =
     (case mk_RingBuffer max_cells default_event ring_size of
        Inl e \<Rightarrow> Inl e
      | Inr rb \<Rightarrow> Inr \<lparr>book = empty_book t, event_buffer = rb\<rparr>)"

definition emit_event :: "EngineEvent \<Rightarrow> MatchingEngine \<Rightarrow> MatchingEngine" where
  "emit_event ev e = e\<lparr>event_buffer := snd (push ev (event_buffer e))\<rparr>"

definition engine_submit :: "Order \<Rightarrow> MatchingEngine \<Rightarrow> bool \<times> MatchingEngine" where
  "engine_submit ord e =
     (case add ord [] (book e) of
        (success, b1, trades) \<Rightarrow>
          let e1 = e\<lparr>book := b1\<rparr> in
            if success then
              (True,
               emit_event (Top (snd (best_bid_ask b1)))
                 (fold (\<lambda>trade. emit_event (Trade trade)) trades
                    (emit_event (Accepted \<lparr>a_id = o_id ord, a_ts = clock b1\<rparr>) e1)))
            else
              (False,
               emit_event
                 (Rejected \<lparr>j_id = o_id ord, j_ts = clock b1, j_reason_code = 1\<rparr>) e1))"

definition engine_cancel :: "OrderId \<Rightarrow> MatchingEngine \<Rightarrow> bool \<times> MatchingEngine" where
  "engine_cancel i e =
     (case cancel i \<lparr>c_id = 0, c_remaining = 0, c_ts = 0\<rparr> (book e) of
        (success, b1, cancel_event) \<Rightarrow>
          let e1 = e\<lparr>book := b1\<rparr> in
            if success then
              (True, emit_event (Top (snd (best_bid_ask b1))) (emit_event (Cancelled cancel_event) e1))
            else (False, e1))"

definition engine_replace :: "OrderId \<Rightarrow> Price \<Rightarrow> u64 \<Rightarrow> MatchingEngine \<Rightarrow> bool \<times> MatchingEngine" where
  "engine_replace i new_price new_qty e =
     (case replace i new_price new_qty \<lparr>r_id = 0, r_new_price = 0, r_new_qty = 0, r_ts = 0\<rparr> []
             (book e) of
        (success, b1, replace_event, trades) \<Rightarrow>
          let e1 = e\<lparr>book := b1\<rparr> in
            if success then
              (True,
               emit_event (Top (snd (best_bid_ask b1)))
                 (fold (\<lambda>trade. emit_event (Trade trade)) trades
                    (emit_event (Replaced replace_event) e1)))
            else (False, e1))"

definition poll_events :: "MatchingEngine \<Rightarrow> (bool \<times> EngineEvent list \<times> MatchingEngine) option" where
  "poll_events e =
     (case pop_all (event_buffer e) [] of
        None \<Rightarrow> None
      | Some (out_events, rb1) \<Rightarrow> Some (out_events \<noteq> [], out_events, e\<lparr>event_buffer := rb1\<rparr>))"

section \<open>Well-formed rings and what they hold\<close>

text \<open>
  The six shift-or steps of \<^verbatim>\<open>next_power_of_two\<close>, applied to \<^verbatim>\<open>n - 1\<close>.
\<close>

definition smear :: "u64 \<Rightarrow> u64" where
  "smear n0 =
     (let n1 = n0 OR drop_bit 1 n0;
          n2 = n1 OR drop_bit 2 n1;
          n3 = n2 OR drop_bit 4 n2;
          n4 = n3 OR drop_bit 8 n3;
          n5 = n4 OR drop_bit 16 n4;
          n6 = n5 OR drop_bit 32 n5
      in n6)"

text \<open>
  A ring as the constructor and \<^verbatim>\<open>push\<close>/\<^verbatim>\<open>pop\<close> leave it: the mask is a power of two
  minus one, the vector has that power of two many cells and both indices are inside it.
\<close>

definition ring_wf :: "'a RingBuffer \<Rightarrow> bool" where
  "ring_wf rb =
     (\<exists>k. k < 64 \<and> rb_mask rb = mask k \<and> length (rb_buffer rb) = 2 ^ k \<and>
          unat (rb_head rb) < 2 ^ k \<and> unat (rb_tail rb) < 2 ^ k)"

text \<open>
  The items waiting in the ring, oldest first: \<^verbatim>\<open>size()\<close> many cells from the head on.
\<close>

fun ring_slice :: "nat \<Rightarrow> u64 \<Rightarrow> u64 \<Rightarrow> 'a list \<Rightarrow> 'a list" where
  "ring_slice 0 h msk buf = []"
| "ring_slice (Suc n) h msk buf = buf ! unat h # ring_slice n ((h + 1) AND msk) msk buf"

definition buffered :: "'a RingBuffer \<Rightarrow> 'a list" where
  "buffered rb =
     ring_slice (unat ((rb_tail rb - rb_head rb) AND rb_mask rb)) (rb_head rb) (rb_mask rb)
       (rb_buffer rb)"

section \<open>Reachable books and their invariant\<close>

text \<open>
  The members of \<^verbatim>\<open>LimitBook\<close> are private: a book is whatever the constructor and the
  three public operations make of it, while the time source may be moved from outside
  between two operations.
\<close>

inductive reachable :: "LimitBook \<Rightarrow> bool" where
  r_init: "reachable (empty_book t)"
| r_add: "reachable b \<Longrightarrow> add ord out b = (ok, b1, out1) \<Longrightarrow> reachable b1"
| r_cancel: "reachable b \<Longrightarrow> cancel i ev b = (ok, b1, ev1) \<Longrightarrow> reachable b1"
| r_replace:
    "reachable b \<Longrightarrow> replace i p q ev out b = (ok, b1, ev1, out1) \<Longrightarrow> reachable b1"
| r_clock: "reachable b \<Longrightarrow> reachable (b\<lparr>clock := t\<rparr>)"

text \<open>
  The slots of one side in priority order, each with the key of its level, and their ids.
\<close>

definition slots :: "PriceMap \<Rightarrow> (Price \<times> BookOrder) list" where
  "slots m = concat (map (\<lambda>kv. map (\<lambda>bo. (fst kv, bo)) (orders (snd kv))) m)"

definition slot_ids :: "PriceMap \<Rightarrow> OrderId list" where
  "slot_ids m = map (\<lambda>s. o_id (order (snd s))) (slots m)"

definition side_ok :: "Side \<Rightarrow> PriceMap \<Rightarrow> (OrderId \<rightharpoonup> (Side \<times> Price)) \<Rightarrow> bool" where
  "side_ok sd m idx =
     ((\<forall>kv \<in> set m. orders (snd kv) \<noteq> []) \<and>
      (\<forall>s \<in> set (slots m).
         o_price (order (snd s)) = fst s \<and> o_type (order (snd s)) = Limit \<and>
         idx (o_id (order (snd s))) = Some (sd, fst s)))"

definition book_inv :: "LimitBook \<Rightarrow> bool" where
  "book_inv b =
     (sorted_wrt cmp_bids (map fst (bids b)) \<and>
      sorted_wrt cmp_asks (map fst (asks b)) \<and>
      side_ok Buy (bids b) (order_index b) \<and>
      side_ok Sell (asks b) (order_index b) \<and>
      distinct (slot_ids (bids b) @ slot_ids (asks b)) \<and>
      (\<forall>i \<in> dom (order_index b). i \<in> set (slot_ids (bids b)) \<union> set (slot_ids (asks b))))"

section \<open>Vocabulary for the matching loop\<close>

text \<open>
  A slot without its mutable quantity, the id of a slot, and the trade that fills a slot
  completely: the level's price, the slot's whole remaining quantity.
\<close>

definition strip :: "Price \<times> BookOrder \<Rightarrow> Price \<times> Order" where
  "strip s = (fst s, order (snd s))"

definition slot_id :: "Price \<times> BookOrder \<Rightarrow> OrderId" where
  "slot_id s = o_id (order (snd s))"

definition full_trade :: "Order \<Rightarrow> u64 \<Rightarrow> Price \<times> BookOrder \<Rightarrow> TradeEvent" where
  "full_trade ord now s =
     \<lparr>taker_id = o_id ord, maker_id = slot_id s, t_price = fst s,
      t_qty = remaining_qty (snd s), t_ts = now\<rparr>"

text \<open>
  The price test that breaks the loop, and the states in which the loop returns at once:
  no level left, nothing left to fill, the best price beyond the limit, or an empty queue
  at the best level.
\<close>

definition stops :: "Order \<Rightarrow> Price \<Rightarrow> bool" where
  "stops ord p = (\<not> is_market ord \<and> price_stops ord p)"

definition halts :: "Order \<Rightarrow> PriceMap \<Rightarrow> bool" where
  "halts ord m =
     (case m of [] \<Rightarrow> True | kv # rest \<Rightarrow> o_qty ord = 0 \<or> stops ord (fst kv) \<or> orders (snd kv) = [])"

text \<open>The working copy of an order differs from the order in its quantity only.\<close>

definition requantified :: "Order \<Rightarrow> Order \<Rightarrow> bool" where
  "requantified ord ord' = (\<exists>q. ord' = ord\<lparr>o_qty := q\<rparr>)"

text \<open>The two comparators of the book.\<close>

definition price_order :: "(Price \<Rightarrow> Price \<Rightarrow> bool) \<Rightarrow> bool" where
  "price_order cmp = (cmp = cmp_bids \<or> cmp = cmp_asks)"

section \<open>Scenarios\<close>

definition mk_order :: "OrderId \<Rightarrow> Side \<Rightarrow> Price \<Rightarrow> u64 \<Rightarrow> OrderType \<Rightarrow> Order" where
  "mk_order i sd p q t =
     \<lparr>o_id = i, o_side = sd, o_price = p, o_qty = q, o_ts = 0, o_type = t\<rparr>"

definition submit_to :: "Order \<Rightarrow> LimitBook \<Rightarrow> LimitBook" where
  "submit_to ord b = fst (snd (add ord [] b))"

text \<open>
  Two sells of 5 at 100, then a buy of 5 at 100 that fills the first of them.
\<close>

definition two_sells_one_filled :: LimitBook where
  "two_sells_one_filled =
     submit_to (mk_order 3 Buy 100 5 Limit)
       (submit_to (mk_order 2 Sell 100 5 Limit)
          (submit_to (mk_order 1 Sell 100 5 Limit) (empty_book 0)))"

text \<open>A sell resting at the tick count that \<open>INVALID_PRICE\<close> also uses.\<close>

definition sell_at_minus_one :: LimitBook where
  "sell_at_minus_one = submit_to (mk_order 1 Sell (- 1) 5 Limit) (empty_book 0)"

text \<open>A single sell of 5 at 100.\<close>

definition one_sell :: LimitBook where
  "one_sell = submit_to (mk_order 1 Sell 100 5 Limit) (empty_book 0)"


text \<open>
  An engine with a ring of 4 cells, on a platform whose vectors hold up to 1024 cells,
  after one accepted limit order.
\<close>

definition small_engine :: MatchingEngine where
  "small_engine = projr (mk_MatchingEngine 1024 4 0)"

definition engine_after_submit :: MatchingEngine where
  "engine_after_submit = snd (engine_submit (mk_order 1 Buy 100 5 Limit) small_engine)"


section \<open>Evaluation of the scenarios\<close>

declare match_loop.simps [simp del]

lemma two_sells_one_filled_asks:
  "asks two_sells_one_filled =
     [(100, \<lparr>orders = [\<lparr>order = mk_order 2 Sell 100 5 Limit, remaining_qty = 5\<rparr>],
             total_qty = 10\<rparr>)]"
  by code_simp

lemma two_sells_one_filled_reachable: "reachable two_sells_one_filled"
  unfolding two_sells_one_filled_def submit_to_def
  by (metis r_add r_init prod.collapse)

lemma sell_at_minus_one_reachable: "reachable sell_at_minus_one"
  unfolding sell_at_minus_one_def submit_to_def
  by (metis r_add r_init prod.collapse)

text \<open>
  C1. A FOK order with a fresh id must either trade its full quantity or be rejected with
  the book untouched. After a fill at a level, \<^verbatim>\<open>total_qty_\<close> of that level still counts
  the filled quantity (the slot was already written through the aliasing pointer when
  \<^verbatim>\<open>pop_front\<close> and \<^verbatim>\<open>update_front_qty\<close> read it), so the pre-scan sees 10 where 5 rest:
  the FOK buy of 10 is accepted, trades 5 and empties the ask side.
\<close>

theorem C1_fok_accepted_on_stale_total:
  "order_index two_sells_one_filled 4 = None \<and>
   (case add (mk_order 4 Buy 100 10 FOK) [] two_sells_one_filled of
      (ok, b1, trades) \<Rightarrow>
        ok \<and> map t_qty trades = [5] \<and> asks b1 = [] \<and>
        asks b1 \<noteq> asks two_sells_one_filled)"
  by code_simp

text \<open>
  C2. No operation may leave the book crossed. \<^verbatim>\<open>would_cross\<close> takes a best opposite
  price equal to \<open>INVALID_PRICE\<close> for an empty side, so a buy at 5 does not match a sell
  resting at \<open>- 1\<close> and rests above it: the best bid is 5 and the best ask is \<open>- 1\<close>.
\<close>

theorem C2_book_crossed_at_sentinel_price:
  "(case add (mk_order 2 Buy 5 5 Limit) [] sell_at_minus_one of
      (ok, b1, trades) \<Rightarrow>
        ok \<and> trades = [] \<and> bids b1 \<noteq> [] \<and> asks b1 \<noteq> [] \<and>
        best_price b1 Buy = 5 \<and> best_price b1 Sell = - 1 \<and>
        \<not> best_price b1 Buy < best_price b1 Sell)"
  by code_simp

text \<open>
  C8. The conversion must round to the nearest tick, a tie going away from zero, for
  negative prices too. Adding one half and truncating towards zero rounds a negative
  quotient up: \<open>- 3 / 2\<close> becomes \<open>- 1\<close> where the rule gives \<open>- 2\<close>, and \<open>- 5 / 4\<close>, which
  is no tie, becomes 0 where the nearest tick is \<open>- 1\<close>.
\<close>

theorem C8_from_double_negative:
  "from_double (- 3 / 2) 1 = - 1 \<and> round_half_away (- 3 / 2 / 1) = - 2 \<and>
   from_double (- 5 / 4) 1 = 0 \<and> round_half_away (- 5 / 4 / 1) = - 1"
  by (simp add: from_double_def trunc_toward_zero_def round_half_away_def ceiling_eq_iff)

section \<open>The capacity of the ring\<close>

lemma smear_step:
  fixes a m :: "64 word"
  assumes "\<And>i. bit a i \<longleftrightarrow> (\<exists>j. i \<le> j \<and> j < i + k \<and> bit m j)"
  shows "bit (a OR drop_bit k a) i \<longleftrightarrow> (\<exists>j. i \<le> j \<and> j < i + 2 * k \<and> bit m j)"
proof -
  have "bit (a OR drop_bit k a) i \<longleftrightarrow> bit a i \<or> bit a (k + i)"
    by (simp add: bit_or_iff bit_drop_bit_eq)
  also have "\<dots> \<longleftrightarrow> (\<exists>j. i \<le> j \<and> j < i + k \<and> bit m j) \<or> (\<exists>j. k + i \<le> j \<and> j < k + i + k \<and> bit m j)"
    using assms by simp
  also have "\<dots> \<longleftrightarrow> (\<exists>j. i \<le> j \<and> j < i + 2 * k \<and> bit m j)"
  proof
    assume "(\<exists>j. i \<le> j \<and> j < i + k \<and> bit m j) \<or> (\<exists>j. k + i \<le> j \<and> j < k + i + k \<and> bit m j)"
    then show "\<exists>j. i \<le> j \<and> j < i + 2 * k \<and> bit m j"
      by (metis add.commute add_leE mult_2 trans_less_add1 add.assoc)
  next
    assume "\<exists>j. i \<le> j \<and> j < i + 2 * k \<and> bit m j"
    then obtain j where j: "i \<le> j" "j < i + 2 * k" "bit m j" by blast
    show "(\<exists>j. i \<le> j \<and> j < i + k \<and> bit m j) \<or> (\<exists>j. k + i \<le> j \<and> j < k + i + k \<and> bit m j)"
    proof (cases "j < i + k")
      case True with j show ?thesis by blast
    next
      case False
      with j have "k + i \<le> j \<and> j < k + i + k" by simp
      with j show ?thesis by blast
    qed
  qed
  finally show ?thesis .
qed

lemma bit_smear: "bit (smear m) i \<longleftrightarrow> (\<exists>j. i \<le> j \<and> bit m j)"
proof -
  define n1 where "n1 = m OR drop_bit 1 m"
  define n2 where "n2 = n1 OR drop_bit 2 n1"
  define n3 where "n3 = n2 OR drop_bit 4 n2"
  define n4 where "n4 = n3 OR drop_bit 8 n3"
  define n5 where "n5 = n4 OR drop_bit 16 n4"
  define n6 where "n6 = n5 OR drop_bit 32 n5"
  have s0: "\<And>i. bit m i \<longleftrightarrow> (\<exists>j. i \<le> j \<and> j < i + 1 \<and> bit m j)"
    by (metis le_refl less_add_one less_Suc_eq_le Suc_eq_plus1 le_antisym)
  have s1: "\<And>i. bit n1 i \<longleftrightarrow> (\<exists>j. i \<le> j \<and> j < i + 2 \<and> bit m j)"
    unfolding n1_def using smear_step [of m 1 m, OF s0] by simp
  have s2: "\<And>i. bit n2 i \<longleftrightarrow> (\<exists>j. i \<le> j \<and> j < i + 4 \<and> bit m j)"
    unfolding n2_def using smear_step [of n1 2 m, OF s1] by simp
  have s3: "\<And>i. bit n3 i \<longleftrightarrow> (\<exists>j. i \<le> j \<and> j < i + 8 \<and> bit m j)"
    unfolding n3_def using smear_step [of n2 4 m, OF s2] by simp
  have s4: "\<And>i. bit n4 i \<longleftrightarrow> (\<exists>j. i \<le> j \<and> j < i + 16 \<and> bit m j)"
    unfolding n4_def using smear_step [of n3 8 m, OF s3] by simp
  have s5: "\<And>i. bit n5 i \<longleftrightarrow> (\<exists>j. i \<le> j \<and> j < i + 32 \<and> bit m j)"
    unfolding n5_def using smear_step [of n4 16 m, OF s4] by simp
  have s6: "\<And>i. bit n6 i \<longleftrightarrow> (\<exists>j. i \<le> j \<and> j < i + 64 \<and> bit m j)"
    unfolding n6_def using smear_step [of n5 32 m, OF s5] by simp
  have "smear m = n6"
    by (simp add: smear_def Let_def n1_def n2_def n3_def n4_def n5_def n6_def)
  moreover have "\<And>j. bit m j \<Longrightarrow> j < 64"
    using bit_imp_le_length [of m] by fastforce
  ultimately show ?thesis
    using s6 by (metis trans_less_add2)
qed

lemma bit_below_bound:
  fixes m :: u64
  assumes "unat m < 2 ^ L" and "bit m j"
  shows "j < L"
proof -
  have "take_bit L (unat m) = unat m"
    using assms(1) by (simp add: take_bit_nat_eq_self_iff)
  moreover have "bit (unat m) j"
    using assms(2) by (simp add: bit_unsigned_iff)
  ultimately have "bit (take_bit L (unat m)) j" by simp
  then show ?thesis by (simp add: bit_take_bit_iff)
qed

lemma bit_at_top:
  fixes m :: u64
  assumes "unat m < 2 ^ L" and "2 ^ (L - 1) \<le> unat m" and "L > 0"
  shows "bit m (L - 1)"
proof -
  have "2 ^ L = 2 * (2::nat) ^ (L - 1)"
    using assms(3) by (cases L) simp_all
  with assms(1) have "unat m < 2 * 2 ^ (L - 1)" by simp
  with assms(2) have "unat m div 2 ^ (L - 1) = 1"
    by (intro div_nat_eqI) simp_all
  then have "bit (unat m) (L - 1)"
    by (simp add: bit_iff_odd)
  then show ?thesis by (simp add: bit_unsigned_iff)
qed

lemma smear_eq_mask:
  fixes m :: u64
  assumes "unat m < 2 ^ L" and "L = 0 \<or> 2 ^ (L - 1) \<le> unat m" and "L \<le> 64"
  shows "smear m = mask L"
proof (rule bit_word_eqI)
  fix i assume i64: "i < LENGTH(64)"
  show "bit (smear m) i = bit (mask L :: u64) i"
  proof (cases "L = 0")
    case True
    with assms(1) have "\<And>j. \<not> bit m j" using bit_below_bound [of m 0] by auto
    with True show ?thesis by (simp add: bit_smear bit_mask_iff)
  next
    case False
    with assms have top: "bit m (L - 1)" by (intro bit_at_top) auto
    have "(\<exists>j. i \<le> j \<and> bit m j) \<longleftrightarrow> i < L"
    proof
      assume "\<exists>j. i \<le> j \<and> bit m j"
      then show "i < L" using bit_below_bound [OF assms(1)] by (meson le_less_trans)
    next
      assume "i < L"
      then have "i \<le> L - 1" by simp
      with top show "\<exists>j. i \<le> j \<and> bit m j" by blast
    qed
    with assms(3) i64 show ?thesis by (simp add: bit_smear bit_mask_iff min_def)
  qed
qed

lemma bitlen_exists:
  fixes M :: nat
  shows "\<exists>L. M < 2 ^ L \<and> (L = 0 \<or> 2 ^ (L - 1) \<le> M) \<and> (\<forall>j. M < 2 ^ j \<longrightarrow> L \<le> j)"
proof -
  define L where "L = (LEAST L. M < 2 ^ L)"
  have ex: "M < 2 ^ M" by (rule less_exp)
  have a: "M < 2 ^ L" unfolding L_def using ex by (rule LeastI)
  have c: "\<forall>j. M < 2 ^ j \<longrightarrow> L \<le> j" unfolding L_def by (simp add: Least_le)
  have b: "L = 0 \<or> 2 ^ (L - 1) \<le> M"
  proof (cases "L = 0")
    case False
    then have "\<not> M < 2 ^ (L - 1)" using c by (metis diff_less less_one not_le neq0_conv)
    then show ?thesis by simp
  qed simp
  from a b c show ?thesis by blast
qed

lemma next_power_of_two_smear: "n \<noteq> 0 \<Longrightarrow> next_power_of_two n = smear (n - 1) + 1"
  by (simp add: next_power_of_two_def smear_def Let_def)

lemma next_power_of_two_least:
  assumes "unat n \<le> 2 ^ 63"
  shows "\<exists>k. k < 64 \<and> next_power_of_two n = 2 ^ k \<and> unat n \<le> 2 ^ k \<and>
           (\<forall>j. unat n \<le> 2 ^ j \<longrightarrow> k \<le> j)"
proof (cases "n = 0")
  case True
  then show ?thesis by (intro exI [of _ 0]) (simp add: next_power_of_two_def)
next
  case False
  then have un: "unat n = Suc (unat (n - 1))"
    by (metis unat_minus_one Suc_pred' unat_gt_0 word_neq_0_conv unsigned_eq_0_iff neq0_conv)
  obtain L where L: "unat (n - 1) < 2 ^ L" "L = 0 \<or> 2 ^ (L - 1) \<le> unat (n - 1)"
      "\<forall>j. unat (n - 1) < 2 ^ j \<longrightarrow> L \<le> j"
    using bitlen_exists by blast
  from assms un have "unat (n - 1) < 2 ^ 63" by simp
  with L(3) have L63: "L \<le> 63" by blast
  then have "smear (n - 1) = mask L" using L by (intro smear_eq_mask) auto
  then have r: "next_power_of_two n = 2 ^ L"
    using False by (simp add: next_power_of_two_smear inc_mask_eq_exp)
  have "unat n \<le> 2 ^ L" using L(1) un by simp
  moreover have "\<forall>j. unat n \<le> 2 ^ j \<longrightarrow> L \<le> j" using L(3) un by (simp add: Suc_le_eq)
  ultimately show ?thesis using r L63 by (intro exI [of _ L]) simp
qed

lemma next_power_of_two_overflow: "next_power_of_two (2 ^ 63 + 1) = 0"
  by (simp add: next_power_of_two_def)

lemma next_power_of_two_default: "next_power_of_two 10000 = 16384"
  by (simp add: next_power_of_two_def)

section \<open>Index arithmetic of the ring\<close>

lemma unat_and_mask: "unat ((x::u64) AND mask k) = unat x mod 2 ^ k"
  by (metis take_bit_eq_mask unsigned_take_bit_eq take_bit_eq_mod)

lemma pow2_dvd_word_size: "k < 64 \<Longrightarrow> (2::nat) ^ k dvd 2 ^ 64"
  by (simp add: le_imp_power_dvd del: power_numeral)

lemma unat_inc_mask:
  fixes h :: u64
  assumes "k < 64"
  shows "unat ((h + 1) AND mask k) = (unat h + 1) mod 2 ^ k"
proof -
  have "unat (h + 1) = (unat h + 1) mod 2 ^ 64"
    by (simp add: unat_word_ariths)
  then have "unat ((h + 1) AND mask k) = ((unat h + 1) mod 2 ^ 64) mod 2 ^ k"
    by (simp only: unat_and_mask)
  also have "\<dots> = (unat h + 1) mod 2 ^ k"
    using pow2_dvd_word_size [OF assms] by (rule mod_mod_cancel)
  finally show ?thesis .
qed

lemma sub_mod_dvd:
  fixes T H K N :: nat
  assumes "K dvd N" and "H < K" and "T < N"
  shows "(if H \<le> T then T - H else T + N - H) mod K = (T + K - H) mod K"
proof -
  from assms(1) obtain c where c: "N = K * c" by (auto simp: dvd_def)
  show ?thesis
  proof (cases "H \<le> T")
    case True
    then have "T + K - H = (T - H) + K" by simp
    then have "(T + K - H) mod K = (T - H) mod K" by (simp only: mod_add_self2)
    then show ?thesis using True by simp
  next
    case False
    have "c \<noteq> 0"
    proof
      assume "c = 0"
      with c have "N = 0" by simp
      with assms(3) show False by simp
    qed
    then obtain c' where c': "c = Suc c'" by (cases c) auto
    have "N = K + K * c'" by (simp add: c c')
    then have "T + N - H = (T + K - H) + K * c'" using assms(2) by simp
    then have "(T + N - H) mod K = (T + K - H) mod K" by (simp only: mod_mult_self2)
    then show ?thesis using False by simp
  qed
qed

lemma unat_diff_mask:
  fixes h t :: u64
  assumes "k < 64" and "unat h < 2 ^ k"
  shows "unat ((t - h) AND mask k) = (unat t + 2 ^ k - unat h) mod 2 ^ k"
proof -
  have "unat t < 2 ^ LENGTH(64)" by (rule unsigned_less)
  then have tN: "unat t < 2 ^ 64" by (simp del: power_numeral)
  have "unat (t - h) = (if unat h \<le> unat t then unat t - unat h else unat t + 2 ^ 64 - unat h)"
    by (simp add: unat_sub_if_size word_size del: power_numeral)
  then show ?thesis
    unfolding unat_and_mask
    using sub_mod_dvd [OF pow2_dvd_word_size [OF assms(1)] assms(2) tN] by (simp del: power_numeral)
qed

lemma ring_step_nat:
  fixes H T K :: nat
  assumes "H < K" and "T < K" and "H \<noteq> T"
  shows "(T + K - H) mod K = Suc ((T + K - (H + 1) mod K) mod K)"
proof (cases "H + 1 < K")
  case True
  show ?thesis
  proof (cases "H < T")
    case True
    then have e: "T + K - H = (T - H) + K" "T + K - (H + 1) = (T - H - 1) + K" by simp_all
    have "(T + K - H) mod K = T - H" unfolding e using assms by simp
    moreover have "(T + K - (H + 1)) mod K = T - H - 1" unfolding e using assms by simp
    moreover have "(H + 1) mod K = H + 1" using \<open>H + 1 < K\<close> by simp
    ultimately show ?thesis using True by simp
  next
    case False
    with assms have "T < H" by simp
    then have "T + K - H < K" "T + K - (H + 1) < K" using assms by simp_all
    with \<open>H + 1 < K\<close> \<open>T < H\<close> assms show ?thesis by simp
  qed
next
  case False
  with assms have h: "H + 1 = K" by simp
  with assms have "T + 1 < K" by simp
  have "T + K - H = T + 1" using h by simp
  with h \<open>T + 1 < K\<close> assms show ?thesis by simp
qed

lemma ring_step:
  fixes h t :: u64
  assumes "k < 64" and "unat h < 2 ^ k" and "unat t < 2 ^ k" and "h \<noteq> t"
  shows "unat ((t - h) AND mask k) = Suc (unat ((t - ((h + 1) AND mask k)) AND mask k))"
proof -
  have lt: "unat ((h + 1) AND mask k) < 2 ^ k"
    by (simp add: unat_and_mask)
  have ne: "unat h \<noteq> unat t" using assms(4) by (simp add: word_unat_eq_iff)
  show ?thesis
    unfolding unat_diff_mask [OF assms(1) lt] unat_diff_mask [OF assms(1,2)]
      unat_inc_mask [OF assms(1)]
    using ring_step_nat [OF assms(2,3) ne] by simp
qed

lemma ring_size_0:
  fixes h :: u64
  assumes "k < 64" and "unat h < 2 ^ k"
  shows "unat ((h - h) AND mask k) = 0"
  by simp

lemma ring_wf_pop:
  assumes "ring_wf rb" and "rb_head rb \<noteq> rb_tail rb"
  shows "ring_wf (snd (pop rb))"
  using assms unfolding ring_wf_def pop_def Let_def
  by (auto simp: unat_and_mask)

lemma pop_all_wf:
  "ring_wf rb \<Longrightarrow> unat ((rb_tail rb - rb_head rb) AND rb_mask rb) = n \<Longrightarrow>
   pop_all rb out = Some (out @ buffered rb, rb\<lparr>rb_head := rb_tail rb\<rparr>)"
proof (induction n arbitrary: rb out)
  case 0
  then obtain k where k: "k < 64" "rb_mask rb = mask k" "unat (rb_head rb) < 2 ^ k"
      "unat (rb_tail rb) < 2 ^ k"
    unfolding ring_wf_def by blast
  have "rb_head rb = rb_tail rb"
  proof (rule ccontr)
    assume "rb_head rb \<noteq> rb_tail rb"
    from ring_step [OF k(1) k(3) k(4) this] 0(2) k(2) show False by simp
  qed
  then show ?case
    by (subst pop_all.simps) (simp add: pop_def buffered_def Let_def)
next
  case (Suc n)
  then obtain k where k: "k < 64" "rb_mask rb = mask k" "unat (rb_head rb) < 2 ^ k"
      "unat (rb_tail rb) < 2 ^ k"
    unfolding ring_wf_def by blast
  have ne: "rb_head rb \<noteq> rb_tail rb"
    using Suc.prems(2) by auto
  define rb1 where "rb1 = rb\<lparr>rb_head := (rb_head rb + 1) AND rb_mask rb\<rparr>"
  have p: "pop rb = (Some (rb_buffer rb ! unat (rb_head rb)), rb1)"
    using ne by (simp add: pop_def rb1_def Let_def)
  have wf1: "ring_wf rb1" using ring_wf_pop [OF Suc.prems(1) ne] p by simp
  have sz: "unat ((rb_tail rb1 - rb_head rb1) AND rb_mask rb1) = n"
    using ring_step [OF k(1) k(3) k(4) ne] Suc.prems(2) k(2) by (simp add: rb1_def)
  have b: "buffered rb = rb_buffer rb ! unat (rb_head rb) # buffered rb1"
    using Suc.prems(2) sz by (simp add: buffered_def rb1_def)
  have "pop_all rb out = pop_all rb1 (out @ [rb_buffer rb ! unat (rb_head rb)])"
    by (subst pop_all.simps) (simp add: p)
  also have "\<dots> = Some ((out @ [rb_buffer rb ! unat (rb_head rb)]) @ buffered rb1,
      rb1\<lparr>rb_head := rb_tail rb1\<rparr>)"
    by (rule Suc.IH [OF wf1 sz])
  finally show ?case by (simp add: b rb1_def)
qed


lemma unat_pow2:
  assumes "k < 64"
  shows "unat ((2::u64) ^ k) = 2 ^ k"
proof -
  have "(2::nat) ^ k < 2 ^ 64"
    using assms by (intro power_strict_increasing) simp_all
  moreover have "(2::u64) ^ k = of_nat (2 ^ k)" by simp
  ultimately show ?thesis
    by (simp only: unat_of_nat) (simp del: power_numeral)
qed




section \<open>The engine emits nothing on a failed cancel or replace\<close>

lemma mk_RingBuffer_Inr:
  assumes "mk_RingBuffer max_cells d n = Inr rb"
  shows "rb = \<lparr>rb_capacity = next_power_of_two n, rb_mask = next_power_of_two n - 1,
                rb_buffer = replicate (unat (next_power_of_two n)) d,
                rb_head = 0, rb_tail = 0\<rparr> \<and>
         unat (next_power_of_two n) \<le> max_cells"
  using assms by (auto simp: mk_RingBuffer_def split: if_splits)

lemma ring_wf_mk:
  assumes "mk_RingBuffer max_cells d n = Inr rb" and "unat n \<le> 2 ^ 63"
  shows "ring_wf rb"
proof -
  from next_power_of_two_least [OF assms(2)] obtain k where
    k: "k < 64" "next_power_of_two n = 2 ^ k" by blast
  have "unat ((2::u64) ^ k) = 2 ^ k" using k(1) by (rule unat_pow2)
  moreover have "(2::u64) ^ k - 1 = mask k" by (simp add: mask_eq_exp_minus_1)
  ultimately show ?thesis
    unfolding ring_wf_def using mk_RingBuffer_Inr [OF assms(1)] k
    by (intro exI [of _ k]) simp
qed

lemma replicate_four: "replicate 4 d = [d, d, d, d]"
  by (simp add: numeral_eq_Suc)

lemma small_engine_built:
  "mk_MatchingEngine 1024 4 0 =
     Inr \<lparr>book = empty_book 0,
          event_buffer =
            \<lparr>rb_capacity = 4, rb_mask = 3,
             rb_buffer = [default_event, default_event, default_event, default_event],
             rb_head = 0, rb_tail = 0\<rparr>\<rparr>"
  by (simp add: mk_MatchingEngine_def mk_RingBuffer_def next_power_of_two_def
      replicate_four)

lemma small_engine_wf: "ring_wf (event_buffer small_engine)"
proof -
  have "mk_RingBuffer 1024 default_event 4 = Inr (event_buffer small_engine)"
    using small_engine_built
    by (simp add: small_engine_def mk_MatchingEngine_def split: sum.splits)
  then show ?thesis by (rule ring_wf_mk) simp
qed

lemma ring_wf_push: "ring_wf rb \<Longrightarrow> ring_wf (snd (push x rb))"
  unfolding ring_wf_def push_def Let_def by (auto simp: unat_and_mask)

lemma ring_wf_emit: "ring_wf (event_buffer e) \<Longrightarrow> ring_wf (event_buffer (emit_event ev e))"
  by (simp add: emit_event_def ring_wf_push)

lemma pop_all_total:
  assumes "ring_wf rb"
  shows "pop_all rb out = Some (out @ buffered rb, rb\<lparr>rb_head := rb_tail rb\<rparr>)"
  using pop_all_wf [OF assms refl] .

lemma poll_events_total:
  assumes "ring_wf (event_buffer e)"
  shows "poll_events e =
     Some (buffered (event_buffer e) \<noteq> [], buffered (event_buffer e),
           e\<lparr>event_buffer := (event_buffer e)\<lparr>rb_head := rb_tail (event_buffer e)\<rparr>\<rparr>)"
  by (simp add: poll_events_def pop_all_total [OF assms])

lemma engine_cancel_buffer:
  "engine_cancel i e = (False, e1) \<Longrightarrow> event_buffer e1 = event_buffer e"
  by (auto simp: engine_cancel_def Let_def split: prod.splits if_splits)

lemma engine_replace_buffer:
  "engine_replace i p q e = (False, e1) \<Longrightarrow> event_buffer e1 = event_buffer e"
  by (auto simp: engine_replace_def Let_def split: prod.splits if_splits)

text \<open>
  C9. When \<^verbatim>\<open>MatchingEngine::cancel\<close> or \<^verbatim>\<open>MatchingEngine::replace\<close> returns false, the
  event channel is exactly as before the call, and the next \<^verbatim>\<open>poll_events\<close> returns and
  delivers the events that were waiting before the failed call, oldest first.
\<close>

theorem C9_failed_cancel_replace_emit_nothing:
  assumes "ring_wf (event_buffer e)"
  shows "(\<forall>e1. engine_cancel i e = (False, e1) \<longrightarrow>
            event_buffer e1 = event_buffer e \<and>
            (\<exists>e2. poll_events e1 =
               Some (buffered (event_buffer e) \<noteq> [], buffered (event_buffer e), e2))) \<and>
         (\<forall>e1. engine_replace i p q e = (False, e1) \<longrightarrow>
            event_buffer e1 = event_buffer e \<and>
            (\<exists>e2. poll_events e1 =
               Some (buffered (event_buffer e) \<noteq> [], buffered (event_buffer e), e2)))"
proof (intro conjI allI impI)
  fix e1 assume "engine_cancel i e = (False, e1)"
  then have b: "event_buffer e1 = event_buffer e" by (rule engine_cancel_buffer)
  then show "event_buffer e1 = event_buffer e" .
  from b assms have "ring_wf (event_buffer e1)" by simp
  from poll_events_total [OF this] b
  show "\<exists>e2. poll_events e1 =
     Some (buffered (event_buffer e) \<noteq> [], buffered (event_buffer e), e2)" by simp
next
  fix e1 assume "engine_replace i p q e = (False, e1)"
  then have b: "event_buffer e1 = event_buffer e" by (rule engine_replace_buffer)
  then show "event_buffer e1 = event_buffer e" .
  from b assms have "ring_wf (event_buffer e1)" by simp
  from poll_events_total [OF this] b
  show "\<exists>e2. poll_events e1 =
     Some (buffered (event_buffer e) \<noteq> [], buffered (event_buffer e), e2)" by simp
qed

lemma ring_wf_fold_emit:
  "ring_wf (event_buffer e) \<Longrightarrow>
   ring_wf (event_buffer (fold (\<lambda>trade. emit_event (Trade trade)) trades e))"
  by (induction trades arbitrary: e) (simp_all add: ring_wf_emit)

lemma engine_submit_wf:
  "ring_wf (event_buffer e) \<Longrightarrow> ring_wf (event_buffer (snd (engine_submit ord e)))"
  by (simp add: engine_submit_def Let_def ring_wf_emit ring_wf_fold_emit split: prod.splits)

lemma engine_cancel_wf:
  "ring_wf (event_buffer e) \<Longrightarrow> ring_wf (event_buffer (snd (engine_cancel i e)))"
  by (simp add: engine_cancel_def Let_def ring_wf_emit split: prod.splits)

lemma engine_replace_wf:
  "ring_wf (event_buffer e) \<Longrightarrow> ring_wf (event_buffer (snd (engine_replace i p q e)))"
  by (simp add: engine_replace_def Let_def ring_wf_emit ring_wf_fold_emit split: prod.splits)

lemma engine_after_submit_wf: "ring_wf (event_buffer engine_after_submit)"
  unfolding engine_after_submit_def
  by (intro engine_submit_wf) (rule small_engine_wf)

lemma engine_after_submit_cancel: "fst (engine_cancel 999 engine_after_submit) = False"
  by code_simp

lemma engine_after_submit_replace: "fst (engine_replace 999 5 5 engine_after_submit) = False"
  by code_simp

lemma engine_after_submit_buffered:
  "buffered (event_buffer engine_after_submit) =
     [Accepted \<lparr>a_id = 1, a_ts = 0\<rparr>,
      Top \<lparr>best_bid = 100, bid_qty = 5, best_ask = - 1, ask_qty = 0, top_ts = 0\<rparr>]"
  by code_simp


text \<open>
  C9 at a concrete engine: one accepted order has left an accept event and a top-of-book
  event in the ring; a cancel and a replace of the unknown id 999 fail, and polling
  afterwards delivers those two events.
\<close>

theorem C9_witness:
  "ring_wf (event_buffer engine_after_submit) \<and>
   fst (engine_cancel 999 engine_after_submit) = False \<and>
   fst (engine_replace 999 5 5 engine_after_submit) = False \<and>
   (\<exists>e2. poll_events (snd (engine_cancel 999 engine_after_submit)) =
      Some (True,
        [Accepted \<lparr>a_id = 1, a_ts = 0\<rparr>,
         Top \<lparr>best_bid = 100, bid_qty = 5, best_ask = - 1, ask_qty = 0, top_ts = 0\<rparr>], e2)) \<and>
   (\<exists>e2. poll_events (snd (engine_replace 999 5 5 engine_after_submit)) =
      Some (True,
        [Accepted \<lparr>a_id = 1, a_ts = 0\<rparr>,
         Top \<lparr>best_bid = 100, bid_qty = 5, best_ask = - 1, ask_qty = 0, top_ts = 0\<rparr>], e2))"
proof -
  have c: "engine_cancel 999 engine_after_submit = (False, snd (engine_cancel 999 engine_after_submit))"
    using engine_after_submit_cancel by (metis prod.collapse)
  have r: "engine_replace 999 5 5 engine_after_submit =
      (False, snd (engine_replace 999 5 5 engine_after_submit))"
    using engine_after_submit_replace by (metis prod.collapse)
  from C9_failed_cancel_replace_emit_nothing [OF engine_after_submit_wf, of 999 5 5] c r
  show ?thesis
    using engine_after_submit_wf engine_after_submit_cancel engine_after_submit_replace
    by (simp add: engine_after_submit_buffered)
qed

section \<open>How many events the ring holds\<close>

lemma next_power_of_two_wraps:
  assumes "2 ^ 63 < unat n"
  shows "next_power_of_two n = 0"
proof -
  have n0: "n \<noteq> 0" using assms by auto
  then have un: "unat n = Suc (unat (n - 1))"
    by (metis unat_minus_one Suc_pred' unat_gt_0 word_neq_0_conv unsigned_eq_0_iff neq0_conv)
  have "unat (n - 1) < 2 ^ LENGTH(64)" by (rule unsigned_less)
  then have a: "unat (n - 1) < 2 ^ 64" by (simp del: power_numeral)
  have b: "(2::nat) ^ (64 - 1) \<le> unat (n - 1)" using assms un by simp
  have "smear (n - 1) = mask 64"
    using a b by (intro smear_eq_mask) simp_all
  then show ?thesis using n0 by (simp add: next_power_of_two_smear inc_mask_eq_exp)
qed





lemma big_ring_refused: "mk_RingBuffer 1024 (0::nat) 2000 = Inl AllocationFailed"
  by (simp add: mk_RingBuffer_def next_power_of_two_def)



section \<open>The iterations of the matching loop\<close>

lemma slots_Nil [simp]: "slots [] = []"
  by (simp add: slots_def)

lemma slots_Cons: "slots ((p, l) # rest) = map (\<lambda>bo. (p, bo)) (orders l) @ slots rest"
  by (simp add: slots_def)

lemma match_loop_Nil: "match_loop ord [] idx now out = (ord, [], idx, out)"
  by (simp add: match_loop.simps)

lemma match_loop_zero: "o_qty ord = 0 \<Longrightarrow> match_loop ord m idx now out = (ord, m, idx, out)"
  by (simp add: match_loop.simps split: list.splits)

lemma match_loop_stop:
  "stops ord p \<Longrightarrow> match_loop ord ((p, l) # rest) idx now out = (ord, (p, l) # rest, idx, out)"
  by (simp add: match_loop.simps stops_def)

lemma match_loop_front_none:
  "orders l = [] \<Longrightarrow>
   match_loop ord ((p, l) # rest) idx now out = (ord, (p, l) # rest, idx, out)"
  by (simp add: match_loop.simps front_def)

lemma word_diff_min_zero:
  fixes q r :: u64
  shows "r - min q r = 0 \<longleftrightarrow> r \<le> q"
  by (auto simp: min_def)

lemma match_loop_partial:
  assumes "o_qty ord \<noteq> 0" and "\<not> stops ord p" and "orders l = x # xs"
    and "o_qty ord < remaining_qty x"
  shows "match_loop ord ((p, l) # rest) idx now out =
     (ord\<lparr>o_qty := 0\<rparr>,
      (p, l\<lparr>orders := x\<lparr>remaining_qty := remaining_qty x - o_qty ord\<rparr> # xs\<rparr>) # rest,
      idx,
      out @ [(full_trade ord now (p, x))\<lparr>t_qty := o_qty ord\<rparr>])"
proof -
  have m: "min (o_qty ord) (remaining_qty x) = o_qty ord"
    using assms(4) by (simp add: min_absorb1 less_imp_le)
  have nz: "remaining_qty x - o_qty ord \<noteq> 0" using assms(4) by auto
  have z: "0 < o_qty ord" using assms(1) by (simp add: word_greater_zero_iff)
  have ns: "is_market ord \<or> \<not> price_stops ord p" using assms(2) by (simp add: stops_def)
  show ?thesis
    using assms(3) z nz ns
    by (cases "is_market ord"; subst match_loop.simps)
       (simp_all add: front_def Let_def m write_front_remaining_def update_front_qty_def
          full_trade_def slot_id_def match_loop_zero)
qed

lemma match_loop_fill:
  assumes "o_qty ord \<noteq> 0" and "\<not> stops ord p" and "orders l = x # xs"
    and "remaining_qty x \<le> o_qty ord"
  shows "match_loop ord ((p, l) # rest) idx now out =
     match_loop (ord\<lparr>o_qty := o_qty ord - remaining_qty x\<rparr>)
       (if xs = [] then rest else (p, l\<lparr>orders := xs\<rparr>) # rest)
       (idx(o_id (order x) := None)) now
       (out @ [full_trade ord now (p, x)])"
proof -
  have m: "min (o_qty ord) (remaining_qty x) = remaining_qty x"
    using assms(4) by (simp add: min_absorb2)
  have z: "0 < o_qty ord" using assms(1) by (simp add: word_greater_zero_iff)
  have ns: "is_market ord \<or> \<not> price_stops ord p" using assms(2) by (simp add: stops_def)
  show ?thesis
    using assms(3) z ns
    by (cases "is_market ord"; subst match_loop.simps)
       (simp_all add: front_def Let_def m write_front_remaining_def pop_front_def
          empty_level_def full_trade_def slot_id_def)
qed


lemma strip_simps [simp]: "strip (p, bo) = (p, order bo)"
  by (simp add: strip_def)

lemma slot_id_simps [simp]: "slot_id (p, bo) = o_id (order bo)"
  by (simp add: slot_id_def)

lemma full_trade_qty [simp]: "full_trade (ord\<lparr>o_qty := q\<rparr>) now s = full_trade ord now s"
  by (simp add: full_trade_def)

lemma stops_qty [simp]: "stops (ord\<lparr>o_qty := q\<rparr>) p = stops ord p"
  by (simp add: stops_def is_market_def price_stops_def)

lemma requantified_refl [simp]: "requantified ord ord"
  unfolding requantified_def by (rule exI [of _ "o_qty ord"]) simp

lemma requantified_upd [simp]: "requantified ord (ord\<lparr>o_qty := q\<rparr>)"
  unfolding requantified_def by blast

lemma requantified_step: "requantified (ord\<lparr>o_qty := q\<rparr>) ord' \<Longrightarrow> requantified ord ord'"
  unfolding requantified_def by auto

lemma requantified_fields:
  "requantified ord ord' \<Longrightarrow>
   o_id ord' = o_id ord \<and> o_side ord' = o_side ord \<and> o_price ord' = o_price ord \<and>
   o_type ord' = o_type ord \<and> o_ts ord' = o_ts ord"
  unfolding requantified_def by auto

lemma match_loop_halts: "halts ord m \<Longrightarrow> match_loop ord m idx now out = (ord, m, idx, out)"
  by (cases m)
     (auto simp: halts_def match_loop_Nil match_loop_zero match_loop_stop match_loop_front_none)

text \<open>
  Induction over the iterations of the loop, seen from its result: the loop either returns
  at once, or fills the taker from the front slot and returns, or consumes the front slot
  and goes on.
\<close>

lemma match_loop_cases [consumes 1, case_names unchanged partial fill]:
  assumes run: "match_loop ord m idx now out = (ord', m', idx', out')"
    and unchanged:
      "\<And>ord m idx out. halts ord m \<Longrightarrow> P ord m idx out ord m idx out"
    and partial:
      "\<And>ord p l x xs rest idx out.
         o_qty ord \<noteq> 0 \<Longrightarrow> \<not> stops ord p \<Longrightarrow> orders l = x # xs \<Longrightarrow>
         o_qty ord < remaining_qty x \<Longrightarrow>
         P ord ((p, l) # rest) idx out
           (ord\<lparr>o_qty := 0\<rparr>)
           ((p, l\<lparr>orders := x\<lparr>remaining_qty := remaining_qty x - o_qty ord\<rparr> # xs\<rparr>) # rest)
           idx
           (out @ [(full_trade ord now (p, x))\<lparr>t_qty := o_qty ord\<rparr>])"
    and fill:
      "\<And>ord p l x xs rest idx out ord' m' idx' out'.
         o_qty ord \<noteq> 0 \<Longrightarrow> \<not> stops ord p \<Longrightarrow> orders l = x # xs \<Longrightarrow>
         remaining_qty x \<le> o_qty ord \<Longrightarrow>
         match_loop (ord\<lparr>o_qty := o_qty ord - remaining_qty x\<rparr>)
           (if xs = [] then rest else (p, l\<lparr>orders := xs\<rparr>) # rest)
           (idx(o_id (order x) := None)) now (out @ [full_trade ord now (p, x)]) =
           (ord', m', idx', out') \<Longrightarrow>
         P (ord\<lparr>o_qty := o_qty ord - remaining_qty x\<rparr>)
           (if xs = [] then rest else (p, l\<lparr>orders := xs\<rparr>) # rest)
           (idx(o_id (order x) := None)) (out @ [full_trade ord now (p, x)])
           ord' m' idx' out' \<Longrightarrow>
         P ord ((p, l) # rest) idx out ord' m' idx' out'"
  shows "P ord m idx out ord' m' idx' out'"
  using run
proof (induction "length (slots m)" arbitrary: ord m idx out rule: less_induct)
  case less
  have same: "P ord m idx out ord' m' idx' out'" if "halts ord m"
  proof -
    from match_loop_halts [OF that] less.prems
    have "ord' = ord" "m' = m" "idx' = idx" "out' = out" by simp_all
    with unchanged [OF that] show ?thesis by simp
  qed
  show ?case
  proof (cases m)
    case Nil
    then show ?thesis using same by (simp add: halts_def)
  next
    case (Cons kv rest)
    obtain p l where kv: "kv = (p, l)" by (cases kv)
    note m = Cons [unfolded kv]
    consider (zero) "o_qty ord = 0" | (stop) "stops ord p" | (none) "orders l = []"
      | (part) x xs where "o_qty ord \<noteq> 0" "\<not> stops ord p" "orders l = x # xs"
          "o_qty ord < remaining_qty x"
      | (full) x xs where "o_qty ord \<noteq> 0" "\<not> stops ord p" "orders l = x # xs"
          "remaining_qty x \<le> o_qty ord"
      by (cases "orders l") (auto simp: not_less [symmetric])
    then show ?thesis
    proof cases
      case zero
      then show ?thesis using same m by (simp add: halts_def)
    next
      case stop
      then show ?thesis using same m by (simp add: halts_def)
    next
      case none
      then show ?thesis using same m by (simp add: halts_def)
    next
      case part
      from match_loop_partial [OF part, of rest idx now out] less.prems m
      have r: "ord' = ord\<lparr>o_qty := 0\<rparr>"
        "m' = (p, l\<lparr>orders := x\<lparr>remaining_qty := remaining_qty x - o_qty ord\<rparr> # xs\<rparr>) # rest"
        "idx' = idx" "out' = out @ [(full_trade ord now (p, x))\<lparr>t_qty := o_qty ord\<rparr>]"
        by simp_all
      show ?thesis unfolding r m by (rule partial [OF part])
    next
      case full
      define m1 where "m1 = (if xs = [] then rest else (p, l\<lparr>orders := xs\<rparr>) # rest)"
      have "slots m = (p, x) # slots m1"
        using full(3) by (simp add: m m1_def slots_Cons)
      then have len: "length (slots m1) < length (slots m)" by simp
      have eq: "match_loop (ord\<lparr>o_qty := o_qty ord - remaining_qty x\<rparr>) m1
          (idx(o_id (order x) := None)) now
          (out @ [full_trade ord now (p, x)]) = (ord', m', idx', out')"
        using match_loop_fill [OF full, of rest idx now out] less.prems m
        by (simp add: m1_def)
      from less.hyps [OF len eq] eq show ?thesis
        unfolding m m1_def by (rule fill [OF full, rotated])
    qed
  qed
qed

lemma match_loop_char:
  assumes "match_loop ord m idx now out = (ord', m', idx', out')"
  shows "\<exists>pre rest last.
     slots m = pre @ rest \<and>
     map strip (slots m') = map strip rest \<and>
     idx' = (\<lambda>i. if i \<in> slot_id ` set pre then None else idx i) \<and>
     out' = out @ map (full_trade ord now) pre @ last \<and>
     (last = [] \<or>
      (\<exists>s rest' q. rest = s # rest' \<and> last = [(full_trade ord now s)\<lparr>t_qty := q\<rparr>] \<and>
             \<not> stops ord (fst s))) \<and>
     (\<forall>s \<in> set pre. \<not> stops ord (fst s)) \<and>
     requantified ord ord'"
  using assms
proof (induction rule: match_loop_cases)
  case (unchanged ord m idx out)
  show ?case
    by (intro exI [of _ "[]"] exI [of _ "slots m"]) simp
next
  case (partial ord p l x xs rest idx out)
  show ?case
    apply (rule exI [of _ "[]"])
    apply (rule exI [of _ "slots ((p, l) # rest)"])
    apply (rule exI [of _ "[(full_trade ord now (p, x))\<lparr>t_qty := o_qty ord\<rparr>]"])
    using partial(2,3) by (simp add: slots_Cons) (rule exI [of _ "o_qty ord"], rule refl)
next
  case (fill ord p l x xs rest idx out ord' m' idx' out')
  define m1 where "m1 = (if xs = [] then rest else (p, l\<lparr>orders := xs\<rparr>) # rest)"
  define ord1 where "ord1 = ord\<lparr>o_qty := o_qty ord - remaining_qty x\<rparr>"
  have s1: "slots ((p, l) # rest) = (p, x) # slots m1"
    using fill(3) by (simp add: m1_def slots_Cons)
  from fill.IH obtain pre rest1 last where ih:
    "slots m1 = pre @ rest1"
    "map strip (slots m') = map strip rest1"
    "idx' = (\<lambda>i. if i \<in> slot_id ` set pre then None else (idx(o_id (order x) := None)) i)"
    "out' = (out @ [full_trade ord now (p, x)]) @ map (full_trade ord1 now) pre @ last"
    "last = [] \<or>
      (\<exists>s rest' q. rest1 = s # rest' \<and> last = [(full_trade ord1 now s)\<lparr>t_qty := q\<rparr>] \<and>
         \<not> stops ord1 (fst s))"
    "\<forall>s \<in> set pre. \<not> stops ord1 (fst s)"
    "requantified ord1 ord'"
    unfolding m1_def [symmetric] ord1_def [symmetric] by (elim exE conjE) (rule that)
  have c1: "slots ((p, l) # rest) = ((p, x) # pre) @ rest1" using s1 ih(1) by simp
  have c3: "idx' = (\<lambda>i. if i \<in> slot_id ` set ((p, x) # pre) then None else idx i)"
    unfolding ih(3) by (rule ext) simp
  have c4: "out' = out @ map (full_trade ord now) ((p, x) # pre) @ last"
    unfolding ih(4) by (simp add: ord1_def)
  have c5: "last = [] \<or>
      (\<exists>s rest' q. rest1 = s # rest' \<and> last = [(full_trade ord now s)\<lparr>t_qty := q\<rparr>] \<and>
         \<not> stops ord (fst s))"
    using ih(5) by (simp add: ord1_def)
  have c6: "\<forall>s \<in> set ((p, x) # pre). \<not> stops ord (fst s)"
    using ih(6) fill(2) by (simp add: ord1_def)
  have c7: "requantified ord ord'"
    using ih(7) unfolding ord1_def by (rule requantified_step)
  from c1 ih(2) c3 c4 c5 c6 c7 show ?case by blast
qed

lemma halts_qty_zero [simp]: "halts (ord\<lparr>o_qty := 0\<rparr>) m"
  by (simp add: halts_def split: list.splits)

lemma match_loop_out_grows:
  assumes "match_loop ord m idx now out = (ord', m', idx', out')"
  shows "length out \<le> length out'"
proof -
  from match_loop_char [OF assms] obtain pre last where
    "out' = out @ map (full_trade ord now) pre @ last"
    by (elim exE conjE) (rule that)
  then show ?thesis by simp
qed

lemma match_loop_levels:
  assumes "match_loop ord m idx now out = (ord', m', idx', out')"
  shows "(\<exists>ks. map fst m = ks @ map fst m') \<and>
         ((\<forall>kv \<in> set m. orders (snd kv) \<noteq> []) \<longrightarrow> (\<forall>kv \<in> set m'. orders (snd kv) \<noteq> [])) \<and>
         halts ord' m'"
  using assms
proof (induction rule: match_loop_cases)
  case (unchanged ord m idx out)
  then show ?case by simp
next
  case (partial ord p l x xs rest idx out)
  show ?case by simp
next
  case (fill ord p l x xs rest idx out ord' m' idx' out')
  define m1 where "m1 = (if xs = [] then rest else (p, l\<lparr>orders := xs\<rparr>) # rest)"
  from fill.IH have ih1: "\<exists>ks. map fst m1 = ks @ map fst m'"
    and ih2: "(\<forall>kv \<in> set m1. orders (snd kv) \<noteq> []) \<longrightarrow> (\<forall>kv \<in> set m'. orders (snd kv) \<noteq> [])"
    and ih3: "halts ord' m'"
    unfolding m1_def by simp_all
  from ih1 obtain ks where ks: "map fst m1 = ks @ map fst m'" ..
  have a: "\<exists>ks. map fst ((p, l) # rest) = ks @ map fst m'"
  proof (cases "xs = []")
    case True
    with ks have "map fst ((p, l) # rest) = (p # ks) @ map fst m'" by (simp add: m1_def)
    then show ?thesis ..
  next
    case False
    with ks have "map fst ((p, l) # rest) = ks @ map fst m'" by (simp add: m1_def)
    then show ?thesis ..
  qed
  have b: "(\<forall>kv \<in> set ((p, l) # rest). orders (snd kv) \<noteq> []) \<longrightarrow>
      (\<forall>kv \<in> set m'. orders (snd kv) \<noteq> [])"
  proof
    assume ne: "\<forall>kv \<in> set ((p, l) # rest). orders (snd kv) \<noteq> []"
    have "\<forall>kv \<in> set m1. orders (snd kv) \<noteq> []"
    proof (cases "xs = []")
      case True
      with ne show ?thesis by (simp add: m1_def)
    next
      case False
      with ne show ?thesis by (simp add: m1_def)
    qed
    then show "\<forall>kv \<in> set m'. orders (snd kv) \<noteq> []" using ih2 by (rule rev_mp)
  qed
  from a b ih3 show ?case by (intro conjI)
qed

lemma match_loop_idem:
  assumes "match_loop ord m idx now out = (ord', m', idx', out')"
  shows "match_loop ord' m' idx' now out2 = (ord', m', idx', out2)"
proof -
  from match_loop_levels [OF assms] have "halts ord' m'" by (elim conjE)
  then show ?thesis by (rule match_loop_halts)
qed

lemma match_loop_grows:
  assumes "match_loop ord m idx now out = (ord', m', idx', out')"
  shows "out' = out \<longrightarrow> ord' = ord \<and> m' = m \<and> idx' = idx"
  using assms
proof (induction rule: match_loop_cases)
  case (unchanged ord m idx out)
  show ?case by simp
next
  case (partial ord p l x xs rest idx out)
  show ?case by simp
next
  case (fill ord p l x xs rest idx out ord' m' idx' out')
  from match_loop_out_grows [OF fill(5)] have "length out < length out'" by simp
  then show ?case by auto
qed

lemma match_loop_no_trade:
  assumes "match_loop ord m idx now out = (ord', m', idx', out)"
  shows "ord' = ord \<and> m' = m \<and> idx' = idx"
  using match_loop_grows [OF assms] by simp

section \<open>The book invariant under matching\<close>

lemma slot_ids_eq: "slot_ids m = map slot_id (slots m)"
  by (simp add: slot_ids_def slot_id_def)

lemma slot_id_strip: "slot_id s = o_id (snd (strip s))"
  by (simp add: slot_id_def strip_def)

lemma map_slot_id_strip:
  assumes "map strip xs = map strip ys"
  shows "map slot_id xs = map slot_id ys"
proof -
  have "map slot_id xs = map (\<lambda>t. o_id (snd t)) (map strip xs)"
    by (simp add: slot_id_strip)
  also have "\<dots> = map (\<lambda>t. o_id (snd t)) (map strip ys)" using assms by simp
  also have "\<dots> = map slot_id ys" by (simp add: slot_id_strip)
  finally show ?thesis .
qed

lemma side_ok_slots:
  "side_ok sd m idx \<longleftrightarrow>
     (\<forall>kv \<in> set m. orders (snd kv) \<noteq> []) \<and>
     (\<forall>t \<in> set (map strip (slots m)).
        o_price (snd t) = fst t \<and> o_type (snd t) = Limit \<and> idx (o_id (snd t)) = Some (sd, fst t))"
  by (auto simp: side_ok_def strip_def)

lemma match_loop_inv:
  assumes run: "match_loop ord m idx now out = (ord', m', idx', out')"
    and srt: "sorted_wrt cmp (map fst m)"
    and ok: "side_ok sd m idx"
    and ok2: "side_ok sd2 m2 idx"
    and dist: "distinct (slot_ids m2 @ slot_ids m)"
    and dom: "\<forall>i \<in> dom idx. i \<in> set (slot_ids m2) \<union> set (slot_ids m)"
  shows "sorted_wrt cmp (map fst m') \<and> side_ok sd m' idx' \<and> side_ok sd2 m2 idx' \<and>
         distinct (slot_ids m2 @ slot_ids m') \<and>
         (\<forall>i \<in> dom idx'. i \<in> set (slot_ids m2) \<union> set (slot_ids m')) \<and>
         set (slot_ids m') \<subseteq> set (slot_ids m) \<and>
         (\<forall>i. idx' i = None \<or> idx' i = idx i)"
proof -
  from match_loop_char [OF run] obtain pre rest where
    sl: "slots m = pre @ rest" and st: "map strip (slots m') = map strip rest"
    and ix: "idx' = (\<lambda>i. if i \<in> slot_id ` set pre then None else idx i)"
    by (elim exE conjE) (rule that)
  from match_loop_levels [OF run] obtain ks where
    ks: "map fst m = ks @ map fst m'"
    and ne: "(\<forall>kv \<in> set m. orders (snd kv) \<noteq> []) \<longrightarrow> (\<forall>kv \<in> set m'. orders (snd kv) \<noteq> [])"
    by (elim exE conjE) (rule that)
  have ids: "slot_ids m = map slot_id pre @ map slot_id rest"
    by (simp add: slot_ids_eq sl)
  have ids': "slot_ids m' = map slot_id rest"
    unfolding slot_ids_eq using st by (rule map_slot_id_strip)
  have c1: "sorted_wrt cmp (map fst m')"
    using srt unfolding ks by (simp add: sorted_wrt_append)
  have disj: "slot_id ` set pre \<inter> (set (slot_ids m2) \<union> slot_id ` set rest) = {}"
    using dist unfolding ids by auto
  have keep: "idx' i = idx i" if "i \<in> set (slot_ids m2) \<union> slot_id ` set rest" for i
    using that disj unfolding ix by auto
  have c2: "side_ok sd m' idx'"
    unfolding side_ok_slots
  proof (intro conjI ballI)
    fix kv assume "kv \<in> set m'"
    with ne ok show "orders (snd kv) \<noteq> []" by (auto simp: side_ok_def)
  next
    fix t assume "t \<in> set (map strip (slots m'))"
    then have t: "t \<in> set (map strip rest)" using st by simp
    then have "t \<in> set (map strip (slots m))" using sl by auto
    with ok have a: "o_price (snd t) = fst t" "o_type (snd t) = Limit"
      "idx (o_id (snd t)) = Some (sd, fst t)"
      unfolding side_ok_slots by auto
    from t have "o_id (snd t) \<in> slot_id ` set rest"
      by (auto simp: slot_id_strip)
    then have "idx' (o_id (snd t)) = idx (o_id (snd t))" by (intro keep) simp
    with a show "o_price (snd t) = fst t" "o_type (snd t) = Limit"
      "idx' (o_id (snd t)) = Some (sd, fst t)" by simp_all
  qed
  have c3: "side_ok sd2 m2 idx'"
    unfolding side_ok_slots
  proof (intro conjI ballI)
    fix kv assume "kv \<in> set m2"
    with ok2 show "orders (snd kv) \<noteq> []" by (auto simp: side_ok_def)
  next
    fix t assume t: "t \<in> set (map strip (slots m2))"
    with ok2 have a: "o_price (snd t) = fst t" "o_type (snd t) = Limit"
      "idx (o_id (snd t)) = Some (sd2, fst t)"
      unfolding side_ok_slots by auto
    from t have "o_id (snd t) \<in> set (slot_ids m2)"
      by (auto simp: slot_ids_eq slot_id_strip)
    then have "idx' (o_id (snd t)) = idx (o_id (snd t))" by (intro keep) simp
    with a show "o_price (snd t) = fst t" "o_type (snd t) = Limit"
      "idx' (o_id (snd t)) = Some (sd2, fst t)" by simp_all
  qed
  have c4: "distinct (slot_ids m2 @ slot_ids m')"
    using dist unfolding ids ids' by auto
  have c5: "\<forall>i \<in> dom idx'. i \<in> set (slot_ids m2) \<union> set (slot_ids m')"
  proof
    fix i assume "i \<in> dom idx'"
    then obtain v where "idx' i = Some v" by blast
    then have v: "(if i \<in> slot_id ` set pre then None else idx i) = Some v"
      by (simp only: ix)
    have "i \<notin> slot_id ` set pre \<and> i \<in> dom idx"
    proof (cases "i \<in> slot_id ` set pre")
      case True
      with v show ?thesis by simp
    next
      case False
      with v have "idx i = Some v" by simp
      with False show ?thesis by blast
    qed
    then have n: "i \<notin> slot_id ` set pre" and "i \<in> dom idx" by simp_all
    with dom have "i \<in> set (slot_ids m2) \<union> set (slot_ids m)" by blast
    then have "i \<in> set (slot_ids m2) \<union> (slot_id ` set pre \<union> slot_id ` set rest)"
      unfolding ids by simp
    with n show "i \<in> set (slot_ids m2) \<union> set (slot_ids m')"
      unfolding ids' by simp
  qed
  have c6: "set (slot_ids m') \<subseteq> set (slot_ids m)" unfolding ids ids' by auto
  have c7: "\<forall>i. idx' i = None \<or> idx' i = idx i" unfolding ix by simp
  from c1 c2 c3 c4 c5 c6 c7 show ?thesis by (intro conjI)
qed

section \<open>Insertion into an ordered price map\<close>

lemma price_order_bids [simp]: "price_order cmp_bids" and price_order_asks [simp]: "price_order cmp_asks"
  by (simp_all add: price_order_def)

lemma price_order_irrefl: "price_order cmp \<Longrightarrow> \<not> cmp a a"
  by (auto simp: price_order_def cmp_bids_def cmp_asks_def)

lemma price_order_trans: "price_order cmp \<Longrightarrow> cmp a b \<Longrightarrow> cmp b c \<Longrightarrow> cmp a c"
  by (auto simp: price_order_def cmp_bids_def cmp_asks_def)

lemma price_order_total: "price_order cmp \<Longrightarrow> \<not> cmp a b \<Longrightarrow> a \<noteq> b \<Longrightarrow> cmp b a"
  by (auto simp: price_order_def cmp_bids_def cmp_asks_def)

lemma sorted_keys_fresh:
  assumes "price_order cmp" and "sorted_wrt cmp (k # ks)"
  shows "k \<notin> set ks"
  using assms price_order_irrefl by auto

lemma sorted_keys_before:
  assumes "price_order cmp" and "sorted_wrt cmp (k # ks)" and "cmp p k"
  shows "p \<notin> set (k # ks)"
proof
  assume "p \<in> set (k # ks)"
  then have "p = k \<or> cmp k p" using assms(2) by auto
  then show False
    using assms(1,3) price_order_irrefl price_order_trans by blast
qed

lemma map_of_absent: "p \<notin> set (map fst m) \<Longrightarrow> map_of m p = None"
  by (simp add: map_of_eq_None_iff)

lemma map_put_sorted:
  assumes "price_order cmp" and "sorted_wrt cmp (map fst m)"
  shows "sorted_wrt cmp (map fst (map_put cmp p l m)) \<and>
         set (map fst (map_put cmp p l m)) = insert p (set (map fst m))"
  using assms(2)
proof (induction m)
  case Nil
  show ?case by simp
next
  case (Cons kv m)
  obtain k v where kv: "kv = (k, v)" by (cases kv)
  from Cons.prems have tl: "sorted_wrt cmp (map fst m)" and hd: "\<forall>x \<in> set (map fst m). cmp k x"
    by (simp_all add: kv)
  consider (eq) "p = k" | (before) "p \<noteq> k" "cmp p k" | (after) "p \<noteq> k" "\<not> cmp p k" by blast
  then show ?case
  proof cases
    case eq
    then show ?thesis using Cons.prems by (simp add: kv)
  next
    case before
    have "\<forall>x \<in> set (map fst m). cmp p x"
      using hd before(2) assms(1) price_order_trans by blast
    then show ?thesis using before Cons.prems by (auto simp: kv)
  next
    case after
    then have "cmp k p" using assms(1) price_order_total by blast
    with Cons.IH [OF tl] hd after show ?thesis by (auto simp: kv)
  qed
qed

lemma map_put_set: "set (map_put cmp p l m) \<subseteq> insert (p, l) (set m)"
  by (induction m) (auto split: if_splits)

lemma slots_append_level:
  "slots ((p, add_order l bo) # rest) = map (\<lambda>b. (p, b)) (orders l) @ (p, bo) # slots rest"
  by (simp add: slots_Cons add_order_def)

lemma map_put_slots:
  assumes "price_order cmp" and "sorted_wrt cmp (map fst m)"
  shows "\<exists>xs ys. slots m = xs @ ys \<and>
           slots (map_put cmp p (add_order (map_get_or_new p m) bo) m) = xs @ (p, bo) # ys"
  using assms(2)
proof (induction m)
  case Nil
  show ?case
    by (simp add: map_get_or_new_def map_find_def slots_append_level new_level_def)
next
  case (Cons kv m)
  obtain k v where kv: "kv = (k, v)" by (cases kv)
  from Cons.prems have tl: "sorted_wrt cmp (map fst m)" by (simp add: kv)
  from Cons.prems have srt: "sorted_wrt cmp (k # map fst m)" by (simp add: kv)
  consider (eq) "p = k" | (before) "p \<noteq> k" "cmp p k" | (after) "p \<noteq> k" "\<not> cmp p k" by blast
  then show ?case
  proof cases
    case eq
    have "slots ((k, v) # m) = map (\<lambda>b. (k, b)) (orders v) @ slots m"
      by (simp add: slots_Cons)
    moreover have "slots (map_put cmp p (add_order (map_get_or_new p ((k, v) # m)) bo) ((k, v) # m)) =
        map (\<lambda>b. (k, b)) (orders v) @ (p, bo) # slots m"
      using eq by (simp add: map_get_or_new_def map_find_def slots_append_level)
    ultimately show ?thesis unfolding kv by blast
  next
    case before
    from sorted_keys_before [OF assms(1) srt before(2)]
    have "map_of ((k, v) # m) p = None" by (intro map_of_absent) simp
    then have "map_get_or_new p ((k, v) # m) = new_level"
      by (simp add: map_get_or_new_def map_find_def)
    then have "slots (map_put cmp p (add_order (map_get_or_new p ((k, v) # m)) bo) ((k, v) # m)) =
        [] @ (p, bo) # slots ((k, v) # m)"
      using before by (simp add: slots_append_level new_level_def)
    moreover have "slots ((k, v) # m) = [] @ slots ((k, v) # m)" by simp
    ultimately show ?thesis unfolding kv by blast
  next
    case after
    have g: "map_get_or_new p ((k, v) # m) = map_get_or_new p m"
      using after(1) by (simp add: map_get_or_new_def map_find_def)
    from Cons.IH [OF tl] obtain xs ys where
      xy: "slots m = xs @ ys"
      "slots (map_put cmp p (add_order (map_get_or_new p m) bo) m) = xs @ (p, bo) # ys"
      by blast
    have "slots ((k, v) # m) = (map (\<lambda>b. (k, b)) (orders v) @ xs) @ ys"
      using xy(1) by (simp add: slots_Cons)
    moreover have "slots (map_put cmp p (add_order (map_get_or_new p ((k, v) # m)) bo) ((k, v) # m)) =
        (map (\<lambda>b. (k, b)) (orders v) @ xs) @ (p, bo) # ys"
      using after xy(2) by (simp add: g slots_Cons)
    ultimately show ?thesis unfolding kv by blast
  qed
qed

lemma side_ok_ids:
  assumes "side_ok sd m idx" and "i \<in> set (slot_ids m)"
  shows "\<exists>p. idx i = Some (sd, p)"
proof -
  from assms(2) obtain s where "s \<in> set (slots m)" "i = o_id (order (snd s))"
    by (auto simp: slot_ids_def)
  with assms(1) show ?thesis by (auto simp: side_ok_def)
qed

lemma put_inv:
  assumes po: "price_order cmp"
    and srt: "sorted_wrt cmp (map fst m)"
    and ok: "side_ok sd m idx"
    and ok2: "side_ok sd2 m2 idx"
    and dist: "distinct (slot_ids m2 @ slot_ids m)"
    and dom: "\<forall>i \<in> dom idx. i \<in> set (slot_ids m2) \<union> set (slot_ids m)"
    and fresh: "idx (o_id ord) = None"
    and lim: "o_type ord = Limit"
  defines "m' \<equiv> map_put cmp (o_price ord) (add_order (map_get_or_new (o_price ord) m) (mk_BookOrder ord)) m"
    and "idx' \<equiv> idx(o_id ord \<mapsto> (sd, o_price ord))"
  shows "sorted_wrt cmp (map fst m') \<and> side_ok sd m' idx' \<and> side_ok sd2 m2 idx' \<and>
         distinct (slot_ids m2 @ slot_ids m') \<and>
         (\<forall>i \<in> dom idx'. i \<in> set (slot_ids m2) \<union> set (slot_ids m'))"
proof -
  let ?p = "o_price ord" and ?bo = "mk_BookOrder ord" and ?i = "o_id ord"
  from map_put_slots [OF po srt, of ?p ?bo] obtain xs ys where
    sl: "slots m = xs @ ys" and sl': "slots m' = xs @ (?p, ?bo) # ys"
    unfolding m'_def by blast
  have ids: "slot_ids m = map slot_id xs @ map slot_id ys"
    by (simp add: slot_ids_eq sl)
  have ids': "slot_ids m' = map slot_id xs @ ?i # map slot_id ys"
    by (simp add: slot_ids_eq sl' mk_BookOrder_def)
  have n1: "?i \<notin> set (slot_ids m)"
    using side_ok_ids [OF ok] fresh by force
  have n2: "?i \<notin> set (slot_ids m2)"
    using side_ok_ids [OF ok2] fresh by force
  have c1: "sorted_wrt cmp (map fst m')"
    unfolding m'_def using map_put_sorted [OF po srt] by blast
  have c2: "side_ok sd m' idx'"
    unfolding side_ok_def
  proof (intro conjI ballI)
    fix kv assume "kv \<in> set m'"
    then have "kv = (?p, add_order (map_get_or_new ?p m) ?bo) \<or> kv \<in> set m"
      unfolding m'_def using map_put_set by blast
    then show "orders (snd kv) \<noteq> []"
      using ok by (auto simp: side_ok_def add_order_def)
  next
    fix s assume "s \<in> set (slots m')"
    then consider "s = (?p, ?bo)" | "s \<in> set (slots m)" unfolding sl sl' by auto
    then have "o_price (order (snd s)) = fst s \<and> o_type (order (snd s)) = Limit \<and>
        idx' (o_id (order (snd s))) = Some (sd, fst s)"
    proof cases
      case 1
      then show ?thesis using lim by (simp add: mk_BookOrder_def idx'_def)
    next
      case 2
      then have "o_id (order (snd s)) \<in> set (slot_ids m)" by (auto simp: slot_ids_def)
      with n1 have "o_id (order (snd s)) \<noteq> ?i" by auto
      with 2 ok show ?thesis by (simp add: side_ok_def idx'_def)
    qed
    then show "o_price (order (snd s)) = fst s" "o_type (order (snd s)) = Limit"
      "idx' (o_id (order (snd s))) = Some (sd, fst s)" by simp_all
  qed
  have c3: "side_ok sd2 m2 idx'"
    unfolding side_ok_def
  proof (intro conjI ballI)
    fix kv assume "kv \<in> set m2"
    then show "orders (snd kv) \<noteq> []" using ok2 by (simp add: side_ok_def)
  next
    fix s assume s: "s \<in> set (slots m2)"
    then have "o_id (order (snd s)) \<in> set (slot_ids m2)" by (auto simp: slot_ids_def)
    with n2 have "o_id (order (snd s)) \<noteq> ?i" by auto
    with s ok2 show "o_price (order (snd s)) = fst s" "o_type (order (snd s)) = Limit"
      "idx' (o_id (order (snd s))) = Some (sd2, fst s)" by (simp_all add: side_ok_def idx'_def)
  qed
  have c4: "distinct (slot_ids m2 @ slot_ids m')"
    using dist n1 n2 unfolding ids ids' by auto
  have c5: "\<forall>i \<in> dom idx'. i \<in> set (slot_ids m2) \<union> set (slot_ids m')"
  proof
    fix i assume "i \<in> dom idx'"
    then have "i = ?i \<or> i \<in> dom idx" by (auto simp: idx'_def split: if_splits)
    then show "i \<in> set (slot_ids m2) \<union> set (slot_ids m')"
      using dom unfolding ids ids' by auto
  qed
  from c1 c2 c3 c4 c5 show ?thesis by (intro conjI)
qed

lemma distinct_append_swap: "distinct (xs @ ys) \<longleftrightarrow> distinct (ys @ xs)"
  by auto

lemma add_resting_order_inv:
  assumes inv: "book_inv b" and fresh: "order_index b (o_id ord) = None"
    and lim: "o_type ord = Limit"
  shows "book_inv (add_resting_order ord b)"
proof (cases "o_side ord = Buy")
  case True
  from inv have a: "sorted_wrt cmp_bids (map fst (bids b))" "side_ok Buy (bids b) (order_index b)"
    "side_ok Sell (asks b) (order_index b)"
    "distinct (slot_ids (asks b) @ slot_ids (bids b))"
    "\<forall>i \<in> dom (order_index b). i \<in> set (slot_ids (asks b)) \<union> set (slot_ids (bids b))"
    "sorted_wrt cmp_asks (map fst (asks b))"
    unfolding book_inv_def by (auto simp: distinct_append_swap [of "slot_ids (bids b)"])
  from put_inv [OF price_order_bids a(1,2,3,4,5) fresh lim] a(6) True
  show ?thesis
    unfolding book_inv_def add_resting_order_def Let_def
    by (auto simp: distinct_append_swap [of "slot_ids (asks b)"])
next
  case False
  then have sd: "o_side ord = Sell" by (cases "o_side ord") auto
  from inv have a: "sorted_wrt cmp_asks (map fst (asks b))" "side_ok Sell (asks b) (order_index b)"
    "side_ok Buy (bids b) (order_index b)"
    "distinct (slot_ids (bids b) @ slot_ids (asks b))"
    "\<forall>i \<in> dom (order_index b). i \<in> set (slot_ids (bids b)) \<union> set (slot_ids (asks b))"
    "sorted_wrt cmp_bids (map fst (bids b))"
    unfolding book_inv_def by auto
  from put_inv [OF price_order_asks a(1,2,3,4,5) fresh lim] a(6) sd
  show ?thesis
    unfolding book_inv_def add_resting_order_def Let_def by auto
qed

section \<open>Removal of a slot\<close>

lemma remove_first_split:
  assumes "i \<in> (\<lambda>bo. o_id (order bo)) ` set xs"
  shows "\<exists>us bo vs. xs = us @ bo # vs \<and> o_id (order bo) = i \<and>
           i \<notin> (\<lambda>bo. o_id (order bo)) ` set us \<and>
           remove_first i xs = us @ vs \<and>
           find (\<lambda>bo. o_id (order bo) = i) xs = Some bo"
  using assms
proof (induction xs)
  case Nil
  then show ?case by simp
next
  case (Cons x xs)
  show ?case
  proof (cases "o_id (order x) = i")
    case True
    then have "x # xs = [] @ x # xs \<and> o_id (order x) = i \<and>
        i \<notin> (\<lambda>bo. o_id (order bo)) ` set [] \<and> remove_first i (x # xs) = [] @ xs \<and>
        find (\<lambda>bo. o_id (order bo) = i) (x # xs) = Some x" by simp
    then show ?thesis by blast
  next
    case False
    with Cons.prems have "i \<in> (\<lambda>bo. o_id (order bo)) ` set xs" by auto
    from Cons.IH [OF this] obtain us bo vs where
      u: "xs = us @ bo # vs" "o_id (order bo) = i" "i \<notin> (\<lambda>bo. o_id (order bo)) ` set us"
      "remove_first i xs = us @ vs" "find (\<lambda>bo. o_id (order bo) = i) xs = Some bo"
      by blast
    with False have "x # xs = (x # us) @ bo # vs \<and> o_id (order bo) = i \<and>
        i \<notin> (\<lambda>bo. o_id (order bo)) ` set (x # us) \<and> remove_first i (x # xs) = (x # us) @ vs \<and>
        find (\<lambda>bo. o_id (order bo) = i) (x # xs) = Some bo" by auto
    then show ?thesis by blast
  qed
qed

lemma map_split_at:
  assumes "distinct (map fst m)" and "(p, level) \<in> set m"
  shows "\<exists>ms1 ms2. m = ms1 @ (p, level) # ms2 \<and> p \<notin> fst ` set ms1 \<and> p \<notin> fst ` set ms2"
proof -
  from assms(2) obtain ms1 ms2 where m: "m = ms1 @ (p, level) # ms2"
    by (auto simp: in_set_conv_decomp)
  with assms(1) have "p \<notin> fst ` set ms1 \<and> p \<notin> fst ` set ms2" by auto
  with m show ?thesis by blast
qed

lemma map_of_split:
  assumes "p \<notin> fst ` set ms1"
  shows "map_of (ms1 @ (p, level) # ms2) p = Some level"
  using assms by (induction ms1) auto

lemma map_erase_split:
  assumes "p \<notin> fst ` set ms1" and "p \<notin> fst ` set ms2"
  shows "map_erase p (ms1 @ (p, level) # ms2) = ms1 @ ms2"
proof -
  have "filter (\<lambda>kv. fst kv \<noteq> p) ms1 = ms1" using assms(1) by (intro filter_True) auto
  moreover have "filter (\<lambda>kv. fst kv \<noteq> p) ms2 = ms2" using assms(2) by (intro filter_True) auto
  ultimately show ?thesis by (simp add: map_erase_def)
qed

lemma map_set_split:
  assumes "p \<notin> fst ` set ms1" and "p \<notin> fst ` set ms2"
  shows "map_set p l (ms1 @ (p, level) # ms2) = ms1 @ (p, l) # ms2"
proof -
  have "map (\<lambda>kv. if fst kv = p then (p, l) else kv) ms1 = ms1"
    using assms(1) by (intro map_idI) auto
  moreover have "map (\<lambda>kv. if fst kv = p then (p, l) else kv) ms2 = ms2"
    using assms(2) by (intro map_idI) auto
  ultimately show ?thesis by (simp add: map_set_def)
qed

lemma cancel_side_at:
  assumes "p \<notin> fst ` set ms1" and "p \<notin> fst ` set ms2"
    and "remove_first i (orders level) = rest"
    and "find (\<lambda>bo. o_id (order bo) = i) (orders level) = Some bo"
  shows "cancel_side i p (ms1 @ (p, level) # ms2) q =
     (if rest = [] then ms1 @ ms2
      else ms1 @ (p, level\<lparr>orders := rest, total_qty := total_qty level - remaining_qty bo\<rparr>) # ms2,
      remaining_qty bo)"
proof -
  have r: "remove_order level i q =
      (True, remaining_qty bo,
       level\<lparr>orders := rest, total_qty := total_qty level - remaining_qty bo\<rparr>)"
    using assms(3,4) by (simp add: remove_order_def find_order_def)
  have mo: "map_find p (ms1 @ (p, level) # ms2) = Some level"
    unfolding map_find_def using assms(1) by (rule map_of_split)
  show ?thesis
    unfolding cancel_side_def mo
    by (simp add: r empty_level_def map_erase_split [OF assms(1,2)]
        map_set_split [OF assms(1,2)])
qed

lemma cancel_side_split:
  assumes "p \<notin> fst ` set ms1" and "p \<notin> fst ` set ms2"
    and "i \<in> (\<lambda>bo. o_id (order bo)) ` set (orders level)"
  shows "\<exists>us bo vs. orders level = us @ bo # vs \<and> o_id (order bo) = i \<and>
     i \<notin> (\<lambda>bo. o_id (order bo)) ` set us \<and>
     cancel_side i p (ms1 @ (p, level) # ms2) q =
     (if us @ vs = [] then ms1 @ ms2
      else ms1 @ (p, level\<lparr>orders := us @ vs, total_qty := total_qty level - remaining_qty bo\<rparr>) # ms2,
      remaining_qty bo)"
proof -
  from remove_first_split [OF assms(3)] obtain us bo vs where
    u: "orders level = us @ bo # vs" "o_id (order bo) = i"
    "i \<notin> (\<lambda>bo. o_id (order bo)) ` set us"
    "remove_first i (orders level) = us @ vs"
    "find (\<lambda>bo. o_id (order bo) = i) (orders level) = Some bo"
    by blast
  from cancel_side_at [OF assms(1,2) u(4,5), of q] u(1,2,3) show ?thesis by blast
qed

lemma slots_append: "slots (a @ b) = slots a @ slots b"
  by (simp add: slots_def)

lemma sorted_keys_distinct:
  assumes "price_order cmp" and "sorted_wrt cmp ks"
  shows "distinct ks"
  using assms(2)
proof (induction ks)
  case Nil
  show ?case by simp
next
  case (Cons k ks)
  then show ?case using sorted_keys_fresh [OF assms(1) Cons.prems] by simp
qed

lemma slot_level:
  assumes "s \<in> set (slots m)"
  shows "\<exists>level. (fst s, level) \<in> set m \<and> snd s \<in> set (orders level)"
  using assms by (auto simp: slots_def)

lemma cancel_side_inv:
  fixes q :: u64
  assumes po: "price_order cmp"
    and srt: "sorted_wrt cmp (map fst m)"
    and ok: "side_ok sd m idx"
    and ok2: "side_ok sd2 m2 idx"
    and dist: "distinct (slot_ids m2 @ slot_ids m)"
    and dom: "\<forall>j \<in> dom idx. j \<in> set (slot_ids m2) \<union> set (slot_ids m)"
    and at: "idx i = Some (sd, p)"
    and located: "i \<in> set (slot_ids m)"
  defines "m1 \<equiv> fst (cancel_side i p m q)" and "idx' \<equiv> idx(i := None)"
  shows "sorted_wrt cmp (map fst m1) \<and> side_ok sd m1 idx' \<and> side_ok sd2 m2 idx' \<and>
         distinct (slot_ids m2 @ slot_ids m1) \<and>
         (\<forall>j \<in> dom idx'. j \<in> set (slot_ids m2) \<union> set (slot_ids m1))"
proof -
  from located obtain s where s: "s \<in> set (slots m)" "o_id (order (snd s)) = i"
    by (auto simp: slot_ids_def)
  with ok at have "fst s = p" by (auto simp: side_ok_def)
  with slot_level [OF s(1)] s(2) obtain level where
    lv: "(p, level) \<in> set m" "i \<in> (\<lambda>bo. o_id (order bo)) ` set (orders level)"
    by force
  have dk: "distinct (map fst m)" using sorted_keys_distinct [OF po srt] .
  from map_split_at [OF dk lv(1)] obtain ms1 ms2 where
    m: "m = ms1 @ (p, level) # ms2" and k1: "p \<notin> fst ` set ms1" and k2: "p \<notin> fst ` set ms2"
    by blast
  from cancel_side_split [OF k1 k2 lv(2), of q] obtain us bo vs where
    u: "orders level = us @ bo # vs" "o_id (order bo) = i"
    and cs: "cancel_side i p (ms1 @ (p, level) # ms2) q =
     (if us @ vs = [] then ms1 @ ms2
      else ms1 @ (p, level\<lparr>orders := us @ vs, total_qty := total_qty level - remaining_qty bo\<rparr>) # ms2,
      remaining_qty bo)"
    by blast
  define X where "X = slots ms1 @ map (\<lambda>b. (p, b)) us"
  define Y where "Y = map (\<lambda>b. (p, b)) vs @ slots ms2"
  have m1: "m1 = (if us @ vs = [] then ms1 @ ms2
      else ms1 @ (p, level\<lparr>orders := us @ vs, total_qty := total_qty level - remaining_qty bo\<rparr>) # ms2)"
    unfolding m1_def m cs by simp
  have m1_e: "m1 = ms1 @ ms2" if "us @ vs = []"
    unfolding m1 using that by (rule if_P)
  have m1_n: "m1 = ms1 @ (p, level\<lparr>orders := us @ vs,
      total_qty := total_qty level - remaining_qty bo\<rparr>) # ms2" if "us @ vs \<noteq> []"
    unfolding m1 using that by (rule if_not_P)
  have sl: "slots m = X @ (p, bo) # Y"
    by (simp add: m slots_append slots_Cons u(1) X_def Y_def)
  have sl1: "slots m1 = X @ Y"
  proof (cases "us @ vs = []")
    case True
    then show ?thesis by (simp add: m1_e [OF True] slots_append X_def Y_def)
  next
    case False
    show ?thesis by (simp add: m1_n [OF False] slots_append slots_Cons X_def Y_def)
  qed
  have ids: "slot_ids m = map slot_id X @ i # map slot_id Y"
    by (simp add: slot_ids_eq sl u(2))
  have ids1: "slot_ids m1 = map slot_id X @ map slot_id Y"
    by (simp add: slot_ids_eq sl1)
  have ni: "i \<notin> set (slot_ids m2)" "i \<notin> set (slot_ids m1)"
    using dist unfolding ids ids1 by auto
  have c1: "sorted_wrt cmp (map fst m1)"
  proof (cases "us @ vs = []")
    case True
    show ?thesis using srt by (simp add: m1_e [OF True] m sorted_wrt_append)
  next
    case False
    show ?thesis using srt by (simp add: m1_n [OF False] m)
  qed
  have sub: "set (slots m1) \<subseteq> set (slots m)" unfolding sl sl1 by auto
  have c2: "side_ok sd m1 idx'"
    unfolding side_ok_def
  proof (intro conjI ballI)
    fix kv assume kv: "kv \<in> set m1"
    show "orders (snd kv) \<noteq> []"
    proof (cases "us @ vs = []")
      case True
      from kv have "kv \<in> set m" by (auto simp: m1_e [OF True] m)
      with ok show ?thesis by (simp add: side_ok_def)
    next
      case False
      from kv have "kv \<in> set m \<or> orders (snd kv) = us @ vs"
        by (auto simp: m1_n [OF False] m)
      with ok False show ?thesis by (auto simp: side_ok_def)
    qed
  next
    fix s assume s1: "s \<in> set (slots m1)"
    then have "o_id (order (snd s)) \<in> set (slot_ids m1)" by (auto simp: slot_ids_def)
    with ni have "o_id (order (snd s)) \<noteq> i" by auto
    moreover from s1 sub have "s \<in> set (slots m)" by blast
    ultimately show "o_price (order (snd s)) = fst s" "o_type (order (snd s)) = Limit"
      "idx' (o_id (order (snd s))) = Some (sd, fst s)"
      using ok by (simp_all add: side_ok_def idx'_def)
  qed
  have c3: "side_ok sd2 m2 idx'"
    unfolding side_ok_def
  proof (intro conjI ballI)
    fix kv assume "kv \<in> set m2"
    then show "orders (snd kv) \<noteq> []" using ok2 by (simp add: side_ok_def)
  next
    fix s assume s2: "s \<in> set (slots m2)"
    then have "o_id (order (snd s)) \<in> set (slot_ids m2)" by (auto simp: slot_ids_def)
    with ni have "o_id (order (snd s)) \<noteq> i" by auto
    with s2 ok2 show "o_price (order (snd s)) = fst s" "o_type (order (snd s)) = Limit"
      "idx' (o_id (order (snd s))) = Some (sd2, fst s)"
      by (simp_all add: side_ok_def idx'_def)
  qed
  have c4: "distinct (slot_ids m2 @ slot_ids m1)"
    using dist unfolding ids ids1 by auto
  have c5: "\<forall>j \<in> dom idx'. j \<in> set (slot_ids m2) \<union> set (slot_ids m1)"
  proof
    fix j assume "j \<in> dom idx'"
    then have j: "j \<noteq> i" "j \<in> dom idx" by (auto simp: idx'_def split: if_splits)
    with dom have "j \<in> set (slot_ids m2) \<union> set (slot_ids m)" by blast
    with j(1) show "j \<in> set (slot_ids m2) \<union> set (slot_ids m1)"
      unfolding ids ids1 by auto
  qed
  from c1 c2 c3 c4 c5 show ?thesis by (intro conjI)
qed

section \<open>The book invariant under the public operations\<close>

lemma match_order_inv:
  assumes inv: "book_inv b" and run: "match_order ord out b = (w, b1, out1)"
  shows "book_inv b1 \<and> requantified ord w \<and> clock b1 = clock b \<and>
         (\<forall>i. order_index b1 i = None \<or> order_index b1 i = order_index b i) \<and>
         set (slot_ids (bids b1)) \<subseteq> set (slot_ids (bids b)) \<and>
         set (slot_ids (asks b1)) \<subseteq> set (slot_ids (asks b))"
proof (cases "o_side ord = Buy")
  case True
  obtain w' m' idx' out' where
    ml: "match_loop ord (asks b) (order_index b) (clock b) out = (w', m', idx', out')"
    by (cases "match_loop ord (asks b) (order_index b) (clock b) out") auto
  with run True have r: "w = w'" "b1 = b\<lparr>asks := m', order_index := idx'\<rparr>" "out1 = out'"
    by (simp_all add: match_order_def)
  from inv have a: "sorted_wrt cmp_asks (map fst (asks b))" "side_ok Sell (asks b) (order_index b)"
    "side_ok Buy (bids b) (order_index b)"
    "distinct (slot_ids (bids b) @ slot_ids (asks b))"
    "\<forall>i \<in> dom (order_index b). i \<in> set (slot_ids (bids b)) \<union> set (slot_ids (asks b))"
    "sorted_wrt cmp_bids (map fst (bids b))"
    unfolding book_inv_def by auto
  from match_loop_inv [OF ml a(1,2,3,4,5)] a(6)
  have "book_inv b1" and "\<forall>i. order_index b1 i = None \<or> order_index b1 i = order_index b i"
    and "set (slot_ids (asks b1)) \<subseteq> set (slot_ids (asks b))"
    unfolding r book_inv_def by simp_all
  moreover from match_loop_char [OF ml] have "requantified ord w" unfolding r by blast
  ultimately show ?thesis by (simp add: r)
next
  case False
  obtain w' m' idx' out' where
    ml: "match_loop ord (bids b) (order_index b) (clock b) out = (w', m', idx', out')"
    by (cases "match_loop ord (bids b) (order_index b) (clock b) out") auto
  with run False have r: "w = w'" "b1 = b\<lparr>bids := m', order_index := idx'\<rparr>" "out1 = out'"
    by (simp_all add: match_order_def)
  from inv have a: "sorted_wrt cmp_bids (map fst (bids b))" "side_ok Buy (bids b) (order_index b)"
    "side_ok Sell (asks b) (order_index b)"
    "distinct (slot_ids (asks b) @ slot_ids (bids b))"
    "\<forall>i \<in> dom (order_index b). i \<in> set (slot_ids (asks b)) \<union> set (slot_ids (bids b))"
    "sorted_wrt cmp_asks (map fst (asks b))"
    unfolding book_inv_def by (auto simp: distinct_append_swap [of "slot_ids (bids b)"])
  from match_loop_inv [OF ml a(1,2,3,4,5)] a(6)
  have "book_inv b1" and "\<forall>i. order_index b1 i = None \<or> order_index b1 i = order_index b i"
    and "set (slot_ids (bids b1)) \<subseteq> set (slot_ids (bids b))"
    unfolding r book_inv_def by (auto simp: distinct_append_swap [of "slot_ids (asks b)"])
  moreover from match_loop_char [OF ml] have "requantified ord w" unfolding r by blast
  ultimately show ?thesis by (simp add: r)
qed

lemma requantified_type: "requantified ord w \<Longrightarrow> is_limit w = is_limit ord \<and> is_ioc w = is_ioc ord \<and> is_fok w = is_fok ord \<and> is_market w = is_market ord"
  using requantified_fields [of ord w] by (simp add: is_limit_def is_ioc_def is_fok_def is_market_def)

lemma add_limit_phase_inv:
  assumes inv: "book_inv b" and fresh: "order_index b (o_id w) = None"
    and run: "add_limit_phase w out b = (ok, b1, out1)"
  shows "book_inv b1 \<and> ok"
proof -
  obtain w1 b0 out0 where
    st: "(if would_cross b w then match_order w out b else (w, b, out)) = (w1, b0, out0)"
    by (cases "if would_cross b w then match_order w out b else (w, b, out)") auto
  have p: "book_inv b0 \<and> requantified w w1 \<and>
      (\<forall>i. order_index b0 i = None \<or> order_index b0 i = order_index b i)"
  proof (cases "would_cross b w")
    case True
    with st have "match_order w out b = (w1, b0, out0)" by simp
    from match_order_inv [OF inv this] show ?thesis by blast
  next
    case False
    with st inv show ?thesis by simp
  qed
  then have f0: "order_index b0 (o_id w1) = None"
    using fresh requantified_fields [of w w1] by (metis)
  have b1: "b1 = (if o_qty w1 > 0 \<and> is_limit w1 then add_resting_order w1 b0 else b0)" and "ok"
    using run unfolding add_limit_phase_def st by simp_all
  show ?thesis
  proof (cases "o_qty w1 > 0 \<and> is_limit w1")
    case True
    then have "o_type w1 = Limit" by (simp add: is_limit_def)
    from add_resting_order_inv [OF _ f0 this] p True b1 \<open>ok\<close> show ?thesis by simp
  next
    case False
    with p b1 \<open>ok\<close> show ?thesis by auto
  qed
qed

lemma add_inv:
  assumes inv: "book_inv b" and run: "add ord out b = (ok, b1, out1)"
  shows "book_inv b1"
proof (cases "order_index b (o_id ord) = None")
  case False
  with run inv show ?thesis by (simp add: add_def)
next
  case fresh: True
  show ?thesis
  proof (cases "is_market ord \<or> is_ioc ord \<or> is_fok ord")
    case False
    with run fresh have "add_limit_phase ord out b = (ok, b1, out1)" by (simp add: add_def)
    from add_limit_phase_inv [OF inv fresh this] show ?thesis by simp
  next
    case agg: True
    show ?thesis
    proof (cases "is_fok ord \<and>
        fok_available ord (if o_side ord = Buy then asks b else bids b) 0 < o_qty ord")
      case True
      with run fresh agg inv show ?thesis by (simp add: add_def)
    next
      case False
      obtain w0 b0 out0 where mo: "match_order ord out b = (w0, b0, out0)"
        by (cases "match_order ord out b") auto
      from match_order_inv [OF inv mo] have p: "book_inv b0" "requantified ord w0"
        "\<forall>i. order_index b0 i = None \<or> order_index b0 i = order_index b i" by simp_all
      have f0: "order_index b0 (o_id w0) = None"
        using fresh p(2,3) requantified_fields [of ord w0] by metis
      from run fresh agg False mo
      have r: "(ok, b1, out1) = (if o_qty w0 = 0 \<or> is_ioc w0 \<or> is_fok w0 then (True, b0, out0)
            else add_limit_phase w0 out0 b0)"
        by (simp add: add_def)
      show ?thesis
      proof (cases "o_qty w0 = 0 \<or> is_ioc w0 \<or> is_fok w0")
        case True
        with r p(1) show ?thesis by simp
      next
        case False
        with r have "add_limit_phase w0 out0 b0 = (ok, b1, out1)" by simp
        from add_limit_phase_inv [OF p(1) f0 this] show ?thesis by simp
      qed
    qed
  qed
qed

lemma index_located:
  assumes inv: "book_inv b" and at: "order_index b i = Some (sd, p)"
  shows "i \<in> set (slot_ids (if sd = Buy then bids b else asks b))"
proof -
  from inv at have "i \<in> set (slot_ids (bids b)) \<union> set (slot_ids (asks b))"
    unfolding book_inv_def by blast
  moreover have "\<exists>q. order_index b i = Some (Buy, q)" if "i \<in> set (slot_ids (bids b))"
    using inv that side_ok_ids unfolding book_inv_def by blast
  moreover have "\<exists>q. order_index b i = Some (Sell, q)" if "i \<in> set (slot_ids (asks b))"
    using inv that side_ok_ids unfolding book_inv_def by blast
  ultimately show ?thesis using at by (cases sd) auto
qed

lemma cancel_eq:
  assumes "order_index b i = Some (sd, p)"
  shows "cancel i ev b =
     (True,
      (if sd = Buy then b\<lparr>bids := fst (cancel_side i p (bids b) 0)\<rparr>
       else b\<lparr>asks := fst (cancel_side i p (asks b) 0)\<rparr>)\<lparr>order_index := (order_index b)(i := None)\<rparr>,
      \<lparr>c_id = i,
       c_remaining = snd (cancel_side i p (if sd = Buy then bids b else asks b) 0),
       c_ts = clock b\<rparr>)"
  using assms by (simp add: cancel_def Let_def case_prod_unfold)

lemma cancel_inv:
  assumes inv: "book_inv b" and run: "cancel i ev b = (ok, b1, ev1)"
  shows "book_inv b1"
proof (cases "order_index b i")
  case None
  with run inv show ?thesis by (simp add: cancel_def)
next
  case (Some loc)
  obtain sd p where loc: "loc = (sd, p)" by (cases loc)
  note at = Some [unfolded loc]
  note loc = index_located [OF inv at]
  from run have b1: "b1 =
      (if sd = Buy then b\<lparr>bids := fst (cancel_side i p (bids b) 0)\<rparr>
       else b\<lparr>asks := fst (cancel_side i p (asks b) 0)\<rparr>)\<lparr>order_index := (order_index b)(i := None)\<rparr>"
    unfolding cancel_eq [OF at] by simp
  show ?thesis
  proof (cases sd)
    case Buy
    from inv have a: "sorted_wrt cmp_bids (map fst (bids b))" "side_ok Buy (bids b) (order_index b)"
      "side_ok Sell (asks b) (order_index b)"
      "distinct (slot_ids (asks b) @ slot_ids (bids b))"
      "\<forall>i \<in> dom (order_index b). i \<in> set (slot_ids (asks b)) \<union> set (slot_ids (bids b))"
      "sorted_wrt cmp_asks (map fst (asks b))"
      unfolding book_inv_def by (auto simp: distinct_append_swap [of "slot_ids (bids b)"])
    from loc Buy have l: "i \<in> set (slot_ids (bids b))" by simp
    from cancel_side_inv [OF price_order_bids a(1,2,3,4,5) at [unfolded Buy] l, of 0] a(6) Buy
    show ?thesis
      unfolding b1 book_inv_def by (auto simp: distinct_append_swap [of "slot_ids (asks b)"])
  next
    case Sell
    from inv have a: "sorted_wrt cmp_asks (map fst (asks b))" "side_ok Sell (asks b) (order_index b)"
      "side_ok Buy (bids b) (order_index b)"
      "distinct (slot_ids (bids b) @ slot_ids (asks b))"
      "\<forall>i \<in> dom (order_index b). i \<in> set (slot_ids (bids b)) \<union> set (slot_ids (asks b))"
      "sorted_wrt cmp_bids (map fst (bids b))"
      unfolding book_inv_def by auto
    from loc Sell have l: "i \<in> set (slot_ids (asks b))" by simp
    from cancel_side_inv [OF price_order_asks a(1,2,3,4,5) at [unfolded Sell] l, of 0] a(6) Sell
    show ?thesis
      unfolding b1 book_inv_def by auto
  qed
qed

lemma replace_cases:
  assumes "replace i p q ev out b = (ok, b1, ev1, out1)"
  shows "b1 = b \<or>
         (\<exists>ev0 c b0 ev0'. cancel i ev0 b = (c, b0, ev0') \<and>
            (b1 = b0 \<or> (\<exists>ord out0 a out2. add ord out0 b0 = (a, b1, out2))))"
proof (cases "order_index b i")
  case None
  with assms show ?thesis by (simp add: replace_def)
next
  case (Some loc)
  obtain sd pr where loc: "loc = (sd, pr)" by (cases loc)
  show ?thesis
  proof (cases "case map_find pr (if sd = Buy then bids b else asks b) of
                   None \<Rightarrow> None | Some level \<Rightarrow> find_order level i")
    case None
    with assms Some loc show ?thesis by (simp add: replace_def)
  next
    case (Some book_order)
    obtain c b0 ev0' where c: "cancel i \<lparr>c_id = 0, c_remaining = 0, c_ts = 0\<rparr> b = (c, b0, ev0')"
      by (cases "cancel i \<lparr>c_id = 0, c_remaining = 0, c_ts = 0\<rparr> b") auto
    show ?thesis
    proof (cases c)
      case False
      with assms \<open>order_index b i = Some loc\<close> loc Some c have "b1 = b0"
        by (simp add: replace_def Let_def)
      with c show ?thesis by blast
    next
      case True
      define new_order where "new_order = (order book_order)\<lparr>o_qty := remaining_qty book_order,
          o_price := p, o_qty := q, o_ts := clock b0\<rparr>"
      obtain a b2 out2 where a: "add new_order out b0 = (a, b2, out2)"
        by (cases "add new_order out b0") auto
      with assms \<open>order_index b i = Some loc\<close> loc Some c True have "b1 = b2"
        by (simp add: replace_def Let_def new_order_def split: if_splits)
      with a c show ?thesis by blast
    qed
  qed
qed

lemma replace_inv:
  assumes inv: "book_inv b" and run: "replace i p q ev out b = (ok, b1, ev1, out1)"
  shows "book_inv b1"
  using replace_cases [OF run] inv cancel_inv add_inv by metis

lemma empty_book_inv: "book_inv (empty_book t)"
  by (simp add: book_inv_def empty_book_def side_ok_def slot_ids_def)

theorem reachable_book_inv: "reachable b \<Longrightarrow> book_inv b"
proof (induction rule: reachable.induct)
  case (r_init t)
  show ?case by (rule empty_book_inv)
next
  case (r_add b ord out ok b1 out1)
  then show ?case using add_inv by blast
next
  case (r_cancel b i ev ok b1 ev1)
  then show ?case using cancel_inv by blast
next
  case (r_replace b i p q ev out ok b1 ev1 out1)
  then show ?case using replace_inv by blast
next
  case (r_clock b t)
  then show ?case by (simp add: book_inv_def)
qed

section \<open>Orders that never rest\<close>

lemma match_order_loop:
  assumes "match_order ord out b = (w, b1, out1)"
  shows "\<exists>m' idx'.
     match_loop ord (if o_side ord = Buy then asks b else bids b) (order_index b) (clock b) out =
       (w, m', idx', out1) \<and>
     b1 = (if o_side ord = Buy then b\<lparr>asks := m', order_index := idx'\<rparr>
           else b\<lparr>bids := m', order_index := idx'\<rparr>)"
  using assms by (auto simp: match_order_def split: if_splits prod.splits)

lemma match_order_requantified:
  assumes "match_order ord out b = (w, b1, out1)"
  shows "requantified ord w"
proof -
  from match_order_loop [OF assms] obtain m' idx' where
    "match_loop ord (if o_side ord = Buy then asks b else bids b) (order_index b) (clock b) out =
       (w, m', idx', out1)" by blast
  from match_loop_char [OF this] show ?thesis by blast
qed

lemma match_order_idem:
  assumes "match_order ord out b = (w, b1, out1)"
  shows "match_order w out2 b1 = (w, b1, out2)"
proof (cases "o_side ord = Buy")
  case True
  obtain w' m' idx' out' where
    ml: "match_loop ord (asks b) (order_index b) (clock b) out = (w', m', idx', out')"
    by (cases "match_loop ord (asks b) (order_index b) (clock b) out") auto
  with assms True have r: "w = w'" "b1 = b\<lparr>asks := m', order_index := idx'\<rparr>"
    by (simp_all add: match_order_def)
  from match_loop_char [OF ml] have "requantified ord w'" by blast
  then have sd: "o_side w' = Buy" using requantified_fields [of ord w'] True by simp
  from match_loop_idem [OF ml, of out2] show ?thesis
    by (simp add: match_order_def r sd)
next
  case False
  obtain w' m' idx' out' where
    ml: "match_loop ord (bids b) (order_index b) (clock b) out = (w', m', idx', out')"
    by (cases "match_loop ord (bids b) (order_index b) (clock b) out") auto
  with assms False have r: "w = w'" "b1 = b\<lparr>bids := m', order_index := idx'\<rparr>"
    by (simp_all add: match_order_def)
  from match_loop_char [OF ml] have "requantified ord w'" by blast
  then have sd: "o_side w' \<noteq> Buy" using requantified_fields [of ord w'] False by simp
  from match_loop_idem [OF ml, of out2] show ?thesis
    by (simp add: match_order_def r sd)
qed

text \<open>What \<^verbatim>\<open>add\<close> does, by outcome.\<close>

lemma add_rejected:
  assumes "add ord out b = (False, b1, out1)"
  shows "b1 = b \<and> out1 = out"
proof -
  have lp: "fst (add_limit_phase w o' b') = True" for w o' b'
    by (simp add: add_limit_phase_def case_prod_unfold)
  show ?thesis
  proof (cases "order_index b (o_id ord) = None")
    case False
    with assms show ?thesis by (simp add: add_def)
  next
    case fresh: True
    show ?thesis
    proof (cases "is_market ord \<or> is_ioc ord \<or> is_fok ord")
      case False
      with assms fresh have "add_limit_phase ord out b = (False, b1, out1)" by (simp add: add_def)
      with lp [of ord out b] show ?thesis by simp
    next
      case agg: True
      show ?thesis
      proof (cases "is_fok ord \<and>
          fok_available ord (if o_side ord = Buy then asks b else bids b) 0 < o_qty ord")
        case True
        with assms fresh agg show ?thesis by (simp add: add_def)
      next
        case False
        obtain w0 b0 out0 where mo: "match_order ord out b = (w0, b0, out0)"
          by (cases "match_order ord out b") auto
        from assms fresh agg False mo
        have r: "(False, b1, out1) = (if o_qty w0 = 0 \<or> is_ioc w0 \<or> is_fok w0 then (True, b0, out0)
              else add_limit_phase w0 out0 b0)"
          by (simp add: add_def)
        then have "add_limit_phase w0 out0 b0 = (False, b1, out1)" by (simp split: if_splits)
        with lp [of w0 out0 b0] show ?thesis by simp
      qed
    qed
  qed
qed

lemma add_accepted_fresh:
  assumes "add ord out b = (True, b1, out1)"
  shows "order_index b (o_id ord) = None"
proof (rule ccontr)
  assume "order_index b (o_id ord) \<noteq> None"
  then have "add ord out b = (False, b, out)" by (simp add: add_def)
  with assms show False by simp
qed

lemma add_not_limit:
  assumes run: "add ord out b = (True, b1, out1)" and nl: "\<not> is_limit ord"
  shows "\<exists>w. match_order ord out b = (w, b1, out1)"
proof -
  have fresh: "order_index b (o_id ord) = None" using run by (rule add_accepted_fresh)
  have agg: "is_market ord \<or> is_ioc ord \<or> is_fok ord"
    using nl by (cases "o_type ord") (simp_all add: is_limit_def is_market_def is_ioc_def is_fok_def)
  obtain w0 b0 out0 where mo: "match_order ord out b = (w0, b0, out0)"
    by (cases "match_order ord out b") auto
  have rq: "requantified ord w0" using mo by (rule match_order_requantified)
  then have nl0: "\<not> is_limit w0" using nl requantified_type by blast
  have fk: "\<not> (is_fok ord \<and>
          fok_available ord (if o_side ord = Buy then asks b else bids b) 0 < o_qty ord)"
    using run fresh agg by (auto simp: add_def)
  from run fresh agg fk mo
  have r: "(True, b1, out1) = (if o_qty w0 = 0 \<or> is_ioc w0 \<or> is_fok w0 then (True, b0, out0)
        else add_limit_phase w0 out0 b0)"
    by (simp add: add_def)
  have "b1 = b0 \<and> out1 = out0"
  proof (cases "o_qty w0 = 0 \<or> is_ioc w0 \<or> is_fok w0")
    case True
    with r show ?thesis by simp
  next
    case False
    then have mk: "is_market w0"
      using nl0 by (cases "o_type w0") (simp_all add: is_limit_def is_market_def is_ioc_def is_fok_def)
    then have wc: "would_cross b0 w0" by (simp add: would_cross_def)
    from False r have "add_limit_phase w0 out0 b0 = (True, b1, out1)" by simp
    then show ?thesis
      unfolding add_limit_phase_def using wc nl0 match_order_idem [OF mo, of out0] by simp
  qed
  with mo show ?thesis by blast
qed

text \<open>
  C3. An accepted order of type Market, IOC or FOK never rests: after \<^verbatim>\<open>add\<close> returns
  true on a book reachable from the empty one, its id is not in the order index and no
  slot on either side carries it, and every slot in the book holds a limit order.
\<close>

theorem C3_only_limit_orders_rest:
  assumes "reachable b" and "o_type ord \<noteq> Limit" and "add ord out b = (True, b1, out1)"
  shows "order_index b1 (o_id ord) = None \<and>
         o_id ord \<notin> set (slot_ids (bids b1)) \<and> o_id ord \<notin> set (slot_ids (asks b1)) \<and>
         list_all (\<lambda>s. o_type (order (snd s)) = Limit) (slots (bids b1) @ slots (asks b1))"
proof -
  have inv: "book_inv b" using assms(1) by (rule reachable_book_inv)
  have inv1: "book_inv b1" using add_inv [OF inv assms(3)] .
  have fresh: "order_index b (o_id ord) = None" using assms(3) by (rule add_accepted_fresh)
  from assms(2) have "\<not> is_limit ord" by (simp add: is_limit_def)
  from add_not_limit [OF assms(3) this] obtain w where "match_order ord out b = (w, b1, out1)" ..
  from match_order_inv [OF inv this]
  have "order_index b1 (o_id ord) = None \<or> order_index b1 (o_id ord) = order_index b (o_id ord)"
    by blast
  with fresh have c1: "order_index b1 (o_id ord) = None" by auto
  have c2: "o_id ord \<notin> set (slot_ids (bids b1))"
    using side_ok_ids [of Buy "bids b1" "order_index b1" "o_id ord"] inv1 c1
    unfolding book_inv_def by auto
  have c3: "o_id ord \<notin> set (slot_ids (asks b1))"
    using side_ok_ids [of Sell "asks b1" "order_index b1" "o_id ord"] inv1 c1
    unfolding book_inv_def by auto
  have c4: "list_all (\<lambda>s. o_type (order (snd s)) = Limit) (slots (bids b1) @ slots (asks b1))"
    using inv1 unfolding book_inv_def side_ok_def by (auto simp: list_all_iff)
  from c1 c2 c3 c4 show ?thesis by (intro conjI)
qed

section \<open>Failed operations\<close>

lemma one_sell_reachable: "reachable one_sell"
  unfolding one_sell_def submit_to_def
  by (metis r_add r_init prod.collapse)

lemma market_on_one_sell:
  "fst (add (mk_order 2 Buy 0 10 Market) [] one_sell) = True \<and>
   map t_qty (snd (snd (add (mk_order 2 Buy 0 10 Market) [] one_sell))) = [5] \<and>
   bids (fst (snd (add (mk_order 2 Buy 0 10 Market) [] one_sell))) = [] \<and>
   asks (fst (snd (add (mk_order 2 Buy 0 10 Market) [] one_sell))) = []"
  by code_simp

text \<open>
  C3 at a market buy of 10 against a single resting sell of 5: the order is accepted,
  trades 5, and the unfilled 5 are dropped; the book is empty afterwards.
\<close>

theorem C3_witness:
  "reachable one_sell \<and> o_type (mk_order 2 Buy 0 10 Market) \<noteq> Limit \<and>
   fst (add (mk_order 2 Buy 0 10 Market) [] one_sell) = True \<and>
   map t_qty (snd (snd (add (mk_order 2 Buy 0 10 Market) [] one_sell))) = [5] \<and>
   order_index (fst (snd (add (mk_order 2 Buy 0 10 Market) [] one_sell))) 2 = None \<and>
   2 \<notin> set (slot_ids (bids (fst (snd (add (mk_order 2 Buy 0 10 Market) [] one_sell))))) \<and>
   2 \<notin> set (slot_ids (asks (fst (snd (add (mk_order 2 Buy 0 10 Market) [] one_sell)))))"
proof -
  let ?r = "add (mk_order 2 Buy 0 10 Market) [] one_sell"
  have t: "o_type (mk_order 2 Buy 0 10 Market) \<noteq> Limit" by (simp add: mk_order_def)
  have "?r = (True, fst (snd ?r), snd (snd ?r))"
    using market_on_one_sell by (metis prod.collapse)
  from C3_only_limit_orders_rest [OF one_sell_reachable t this]
  show ?thesis using one_sell_reachable t market_on_one_sell by (simp add: mk_order_def)
qed

lemma find_order_present:
  assumes "i \<in> (\<lambda>bo. o_id (order bo)) ` set (orders level)"
  shows "\<exists>bo. find_order level i = Some bo \<and> bo \<in> set (orders level) \<and> o_id (order bo) = i"
proof -
  from remove_first_split [OF assms] obtain us bo vs where
    "orders level = us @ bo # vs" "o_id (order bo) = i"
    "find (\<lambda>bo. o_id (order bo) = i) (orders level) = Some bo" by blast
  then show ?thesis by (auto simp: find_order_def)
qed

lemma resting_slot_found:
  assumes inv: "book_inv b" and at: "order_index b i = Some (sd, p)"
  shows "\<exists>level bo. map_find p (if sd = Buy then bids b else asks b) = Some level \<and>
           find_order level i = Some bo \<and> o_id (order bo) = i \<and> o_type (order bo) = Limit"
proof -
  let ?m = "if sd = Buy then bids b else asks b"
  have ok: "side_ok sd ?m (order_index b)"
    using inv by (cases sd) (simp_all add: book_inv_def)
  have dk: "distinct (map fst ?m)"
    using inv sorted_keys_distinct [OF price_order_bids] sorted_keys_distinct [OF price_order_asks]
    by (cases sd) (simp_all add: book_inv_def)
  from index_located [OF inv at] obtain s where
    s: "s \<in> set (slots ?m)" "o_id (order (snd s)) = i"
    by (auto simp: slot_ids_def)
  with ok at have "fst s = p" by (auto simp: side_ok_def)
  with slot_level [OF s(1)] s(2) obtain level where
    lv: "(p, level) \<in> set ?m" "i \<in> (\<lambda>bo. o_id (order bo)) ` set (orders level)"
    by force
  have mf: "map_find p ?m = Some level"
    unfolding map_find_def using dk lv(1) by (rule map_of_is_SomeI)
  from find_order_present [OF lv(2)] obtain bo where
    bo: "find_order level i = Some bo" "bo \<in> set (orders level)" "o_id (order bo) = i" by blast
  from lv(1) bo(2) have "(p, bo) \<in> set (slots ?m)" by (force simp: slots_def)
  with ok have "o_type (order bo) = Limit" by (auto simp: side_ok_def)
  with mf bo show ?thesis by blast
qed

lemma add_limit_accepted:
  assumes "order_index b (o_id ord) = None" and "o_type ord = Limit"
  shows "fst (add ord out b) = True"
  using assms
  by (simp add: add_def is_market_def is_ioc_def is_fok_def add_limit_phase_def case_prod_unfold)

lemma replace_known_id:
  assumes inv: "book_inv b" and at: "order_index b i = Some (sd, p)"
  shows "fst (replace i np nq ev out b) = True"
proof -
  from resting_slot_found [OF inv at] obtain level bo where
    f: "map_find p (if sd = Buy then bids b else asks b) = Some level"
    "find_order level i = Some bo" "o_id (order bo) = i" "o_type (order bo) = Limit" by blast
  let ?c = "cancel i \<lparr>c_id = 0, c_remaining = 0, c_ts = 0\<rparr> b"
  have c: "fst ?c = True" "order_index (fst (snd ?c)) i = None"
    unfolding cancel_eq [OF at] by simp_all
  let ?n = "(order bo)\<lparr>o_qty := remaining_qty bo, o_price := np, o_qty := nq,
      o_ts := clock (fst (snd ?c))\<rparr>"
  have "fst (add ?n out (fst (snd ?c))) = True"
    using c(2) f(3,4) by (intro add_limit_accepted) simp_all
  then show ?thesis
    using at f(1,2) c(1)
    by (simp add: replace_def Let_def case_prod_unfold)
qed

lemma replace_rejected:
  assumes inv: "book_inv b" and run: "replace i np nq ev out b = (False, b1, ev1, out1)"
  shows "b1 = b \<and> ev1 = ev \<and> out1 = out"
proof (cases "order_index b i")
  case None
  with run show ?thesis by (simp add: replace_def)
next
  case (Some loc)
  obtain sd p where "loc = (sd, p)" by (cases loc)
  with Some replace_known_id [OF inv, of i sd p np nq ev out] run show ?thesis by simp
qed

lemma cancel_rejected:
  assumes "cancel i ev b = (False, b1, ev1)"
  shows "b1 = b \<and> ev1 = ev"
  using assms by (cases "order_index b i") (auto simp: cancel_def Let_def case_prod_unfold)

text \<open>
  C4. On a book reachable from the empty one, each of \<^verbatim>\<open>add\<close>, \<^verbatim>\<open>cancel\<close> and \<^verbatim>\<open>replace\<close>
  that returns false returns the book it was given, unchanged in every field, and leaves
  the caller's output arguments as they were. A replace of a resting order never fails:
  the resting order is a limit order and its id has just been freed, so the resubmission
  is admitted.
\<close>

theorem C4_failed_operations_change_nothing:
  assumes "reachable b"
  shows "(add ord out b = (False, b1, out1) \<longrightarrow> b1 = b \<and> out1 = out) \<and>
         (cancel i ev b = (False, b2, ev2) \<longrightarrow> b2 = b \<and> ev2 = ev) \<and>
         (replace j np nq rv outr b = (False, b3, rv3, out3) \<longrightarrow>
            b3 = b \<and> rv3 = rv \<and> out3 = outr)"
  using add_rejected cancel_rejected replace_rejected [OF reachable_book_inv [OF assms]]
  by blast

lemma rejections_on_one_sell:
  "fst (add (mk_order 1 Buy 90 5 Limit) [] one_sell) = False \<and>
   fst (add (mk_order 2 Buy 100 10 FOK) [] one_sell) = False \<and>
   fst (cancel 999 \<lparr>c_id = 0, c_remaining = 0, c_ts = 0\<rparr> one_sell) = False \<and>
   fst (replace 999 100 5 \<lparr>r_id = 0, r_new_price = 0, r_new_qty = 0, r_ts = 0\<rparr> [] one_sell) = False"
  by code_simp

text \<open>
  C4 at a book holding one sell of 5 at 100: a submit with the id already in use, a FOK
  buy of 10, and a cancel and a replace of the unknown id 999 all return false and return
  the same book.
\<close>

theorem C4_witness:
  "reachable one_sell \<and>
   fst (add (mk_order 1 Buy 90 5 Limit) [] one_sell) = False \<and>
   fst (snd (add (mk_order 1 Buy 90 5 Limit) [] one_sell)) = one_sell \<and>
   fst (add (mk_order 2 Buy 100 10 FOK) [] one_sell) = False \<and>
   fst (snd (add (mk_order 2 Buy 100 10 FOK) [] one_sell)) = one_sell \<and>
   fst (cancel 999 \<lparr>c_id = 0, c_remaining = 0, c_ts = 0\<rparr> one_sell) = False \<and>
   fst (snd (cancel 999 \<lparr>c_id = 0, c_remaining = 0, c_ts = 0\<rparr> one_sell)) = one_sell \<and>
   fst (replace 999 100 5 \<lparr>r_id = 0, r_new_price = 0, r_new_qty = 0, r_ts = 0\<rparr> [] one_sell) = False \<and>
   fst (snd (replace 999 100 5 \<lparr>r_id = 0, r_new_price = 0, r_new_qty = 0, r_ts = 0\<rparr> [] one_sell)) = one_sell"
proof -
  let ?d = "add (mk_order 1 Buy 90 5 Limit) [] one_sell"
  let ?f = "add (mk_order 2 Buy 100 10 FOK) [] one_sell"
  let ?c = "cancel 999 \<lparr>c_id = 0, c_remaining = 0, c_ts = 0\<rparr> one_sell"
  let ?r = "replace 999 100 5 \<lparr>r_id = 0, r_new_price = 0, r_new_qty = 0, r_ts = 0\<rparr> [] one_sell"
  note e = rejections_on_one_sell
  have d: "?d = (False, fst (snd ?d), snd (snd ?d))" using e by (simp add: prod_eq_iff)
  have f: "?f = (False, fst (snd ?f), snd (snd ?f))" using e by (simp add: prod_eq_iff)
  have c: "?c = (False, fst (snd ?c), snd (snd ?c))" using e by (simp add: prod_eq_iff)
  have r: "?r = (False, fst (snd ?r), fst (snd (snd ?r)), snd (snd (snd ?r)))"
    using e by (simp add: prod_eq_iff)
  from C4_failed_operations_change_nothing [OF one_sell_reachable,
      of "mk_order 1 Buy 90 5 Limit" "[]" "fst (snd ?d)" "snd (snd ?d)"] d
  have 1: "fst (snd ?d) = one_sell" by simp
  from C4_failed_operations_change_nothing [OF one_sell_reachable,
      of "mk_order 2 Buy 100 10 FOK" "[]" "fst (snd ?f)" "snd (snd ?f)"
         999 "\<lparr>c_id = 0, c_remaining = 0, c_ts = 0\<rparr>" "fst (snd ?c)" "snd (snd ?c)"
         999 100 5 "\<lparr>r_id = 0, r_new_price = 0, r_new_qty = 0, r_ts = 0\<rparr>" "[]"
         "fst (snd ?r)" "fst (snd (snd ?r))" "snd (snd (snd ?r))"] f c r
  have 2: "fst (snd ?f) = one_sell" "fst (snd ?c) = one_sell" "fst (snd ?r) = one_sell"
    by simp_all
  from 1 2 e one_sell_reachable show ?thesis by (intro conjI) simp_all
qed

end
